theory Spec2Isabelle
  imports Main "HOL-Library.Word" "HOL-Library.Multiset"
begin

section \<open>rocPRIM device merge sort: the host pipeline of device\_sort\_hip.hpp\<close>

text \<open>
  The development embeds \<^verbatim>\<open>rocprim/device/device_sort_hip.hpp\<close>: the host function
  \<^verbatim>\<open>detail::sort_impl\<close>, the macro \<^verbatim>\<open>ROCPRIM_DETAIL_HIP_SYNC_AND_RETURN_ON_ERROR\<close>
  and the two public overloads of \<^verbatim>\<open>sort\<close>.

  \<^item> \<^verbatim>\<open>size_t\<close> is a 64-bit word, \<^verbatim>\<open>unsigned int\<close> a 32-bit word; \<open>+\<close>, \<open>*\<close> wrap.
  \<^item> Every kernel reads and writes the keys array and the values array of a buffer at
    the same indices, and \<^verbatim>\<open>sort_impl\<close> always passes them in pairs, so a buffer is the
    list of its (key, value) pairs. A keys-only sort is the instance where the value
    type is \<open>unit\<close> (\<^verbatim>\<open>empty_type\<close>).
  \<^item> A kernel launch is executed in program order (all launches go to one stream), and
    is recorded in the queue of launched work.
  \<^item> The HIP runtime is an external collaborator: what \<^verbatim>\<open>hipPeekAtLastError\<close> and
    \<^verbatim>\<open>hipStreamSynchronize\<close> answer is a parameter, a function of the work launched so
    far.
  \<^item> The merge loop may run forever, so it is a partial function into \<open>option\<close>:
    \<open>None\<close> is a call that never returns.
  \<^item> Time measurement is left out; the text written to standard output is kept.
\<close>

subsection \<open>Statuses, launches, the world a call acts on\<close>

datatype hipError_t = hipSuccess | hipError nat

datatype buffer_id = Input | Output | Buffer

datatype kernel_name =
    block_sort_kernel
  | block_merge_kernel "32 word"
  | block_copy_kernel

record launch =
  kernel :: kernel_name
  grid_dim :: "32 word"
  block_dim :: "32 word"
  source :: buffer_id
  destination :: buffer_id
  count :: "64 word"

datatype log_item = Number string nat | Stage string nat | Elapsed

record ('k, 'v) world =
  storage_size :: "64 word"
  input_seq :: "('k \<times> 'v) list"
  output_seq :: "('k \<times> 'v) list"
  scratch_seq :: "('k \<times> 'v) list"
  queue :: "launch list"
  stdout :: "log_item list"

text \<open>
  What the header takes from elsewhere, as parameters: \<^verbatim>\<open>align_size\<close> of
  detail/various.hpp, the sizes of the key and value types and whether the value type
  is not \<^verbatim>\<open>empty_type\<close>, the sort one thread group of \<^verbatim>\<open>block_sort_kernel_impl\<close>
  (detail/device\_sort.hpp) applies to its chunk, and the answers of the two runtime calls,
  given the work queued so far.
\<close>

record ('k, 'v) env =
  align_size :: "64 word \<Rightarrow> 64 word"
  sizeof_key :: "64 word"
  sizeof_value :: "64 word"
  with_values :: bool
  group_sort :: "('k \<Rightarrow> 'k \<Rightarrow> bool) \<Rightarrow> ('k \<times> 'v) list \<Rightarrow> ('k \<times> 'v) list"
  hipPeekAtLastError :: "launch list \<Rightarrow> hipError_t"
  hipStreamSynchronize :: "launch list \<Rightarrow> hipError_t"

subsection \<open>The kernels\<close>

text \<open>
  Modelled from the spec: \<^verbatim>\<open>block_sort_kernel_impl\<close>, \<^verbatim>\<open>block_merge_kernel_impl\<close> and
  \<^verbatim>\<open>block_copy_kernel_impl\<close> live in detail/device\_sort.hpp, which is not part of the
  sources at hand. The definitions of this subsection follow sections 4.2 to 4.4 of
  the specification.
\<close>

text \<open>
  Modelled from the spec: the sorted merge of two runs (4.3). The heads are compared
  under the predicate; the element of the second run is taken only when it is strictly
  less, so a tie goes to the first (left) run.
\<close>

fun merge2 :: "('k \<Rightarrow> 'k \<Rightarrow> bool) \<Rightarrow> ('k \<times> 'v) list \<Rightarrow> ('k \<times> 'v) list \<Rightarrow> ('k \<times> 'v) list" where
  "merge2 cmp [] ys = ys"
| "merge2 cmp xs [] = xs"
| "merge2 cmp (x # xs) (y # ys) =
     (if cmp (fst y) (fst x) then y # merge2 cmp (x # xs) ys
      else x # merge2 cmp xs (y # ys))"

text \<open>
  Modelled from the spec: one merge pass over runs of width \<open>w\<close> (4.3). Disjoint pairs of
  adjacent runs are merged; the second run of the last pair may be shorter or absent.
  The specification says nothing about a run width of 0; the data is then left as it
  is.
\<close>

function merge_runs :: "('k \<Rightarrow> 'k \<Rightarrow> bool) \<Rightarrow> nat \<Rightarrow> ('k \<times> 'v) list \<Rightarrow> ('k \<times> 'v) list" where
  "merge_runs cmp w xs =
     (if w = 0 \<or> xs = [] then xs
      else merge2 cmp (take w xs) (take w (drop w xs)) @ merge_runs cmp w (drop (2 * w) xs))"
  by pat_completeness auto
termination
  by (relation "measure (\<lambda>(cmp, w, xs). length xs)") auto

text \<open>
  Modelled from the spec: the group sort stage (4.2). The first \<open>g\<close> thread groups each
  take the next chunk of up to \<open>b\<close> elements and sort it with \<open>gs\<close>; the result is what
  these groups write, in place order.
\<close>

fun sort_groups ::
  "(('k \<Rightarrow> 'k \<Rightarrow> bool) \<Rightarrow> ('k \<times> 'v) list \<Rightarrow> ('k \<times> 'v) list) \<Rightarrow> ('k \<Rightarrow> 'k \<Rightarrow> bool) \<Rightarrow> nat \<Rightarrow> nat \<Rightarrow>
   ('k \<times> 'v) list \<Rightarrow> ('k \<times> 'v) list" where
  "sort_groups gs cmp b 0 xs = []"
| "sort_groups gs cmp b (Suc g) xs =
     (if xs = [] then [] else gs cmp (take b xs) @ sort_groups gs cmp b g (drop b xs))"

text \<open>
  Modelled from the spec: a kernel writes what its groups produce, \<open>out\<close>, to the front
  of its destination (the groups own disjoint, contiguous ranges, in order) and leaves
  the rest of the destination as it was.
\<close>

definition overwrite :: "'a list \<Rightarrow> 'a list \<Rightarrow> 'a list" where
  "overwrite out dst = out @ drop (length out) dst"

text \<open>
  Modelled from the spec: the three kernels, launched with \<open>g\<close> groups of \<open>b\<close> threads
  on \<open>n\<close> elements. In the merge and copy kernels each group owns one window of \<open>b\<close>
  output positions (4.3, 4.4), so \<open>g\<close> groups write the first \<open>g * b\<close> positions.
\<close>

definition block_sort_kernel_impl ::
  "(('k \<Rightarrow> 'k \<Rightarrow> bool) \<Rightarrow> ('k \<times> 'v) list \<Rightarrow> ('k \<times> 'v) list) \<Rightarrow> nat \<Rightarrow> nat \<Rightarrow> ('k \<Rightarrow> 'k \<Rightarrow> bool) \<Rightarrow> nat \<Rightarrow>
   ('k \<times> 'v) list \<Rightarrow> ('k \<times> 'v) list \<Rightarrow> ('k \<times> 'v) list" where
  "block_sort_kernel_impl gs g b cmp n src dst =
     overwrite (sort_groups gs cmp b g (take n src)) dst"

definition block_merge_kernel_impl ::
  "nat \<Rightarrow> nat \<Rightarrow> ('k \<Rightarrow> 'k \<Rightarrow> bool) \<Rightarrow> nat \<Rightarrow> nat \<Rightarrow>
   ('k \<times> 'v) list \<Rightarrow> ('k \<times> 'v) list \<Rightarrow> ('k \<times> 'v) list" where
  "block_merge_kernel_impl g b cmp n w src dst =
     overwrite (take (g * b) (merge_runs cmp w (take n src))) dst"

definition block_copy_kernel_impl ::
  "nat \<Rightarrow> nat \<Rightarrow> nat \<Rightarrow> ('k \<times> 'v) list \<Rightarrow> ('k \<times> 'v) list \<Rightarrow> ('k \<times> 'v) list" where
  "block_copy_kernel_impl g b n src dst = overwrite (take (g * b) (take n src)) dst"

subsection \<open>Launching\<close>

fun read_buffer :: "buffer_id \<Rightarrow> ('k, 'v) world \<Rightarrow> ('k \<times> 'v) list" where
  "read_buffer Input w = input_seq w"
| "read_buffer Output w = output_seq w"
| "read_buffer Buffer w = scratch_seq w"

fun write_buffer :: "buffer_id \<Rightarrow> ('k \<times> 'v) list \<Rightarrow> ('k, 'v) world \<Rightarrow> ('k, 'v) world" where
  "write_buffer Input xs w = w\<lparr>input_seq := xs\<rparr>"
| "write_buffer Output xs w = w\<lparr>output_seq := xs\<rparr>"
| "write_buffer Buffer xs w = w\<lparr>scratch_seq := xs\<rparr>"

text \<open>
  What a launch does to its destination buffer: the kernel named in it, on the grid, the
  group size and the arguments of the launch.
\<close>

fun run_kernel ::
  "('k, 'v) env \<Rightarrow> ('k \<Rightarrow> 'k \<Rightarrow> bool) \<Rightarrow> launch \<Rightarrow> ('k \<times> 'v) list \<Rightarrow> ('k \<times> 'v) list \<Rightarrow> ('k \<times> 'v) list" where
  "run_kernel e cmp l src dst =
     (case kernel l of
        block_sort_kernel \<Rightarrow>
          block_sort_kernel_impl (group_sort e) (unat (grid_dim l)) (unat (block_dim l)) cmp
            (unat (count l)) src dst
      | block_merge_kernel block \<Rightarrow>
          block_merge_kernel_impl (unat (grid_dim l)) (unat (block_dim l)) cmp
            (unat (count l)) (unat block) src dst
      | block_copy_kernel \<Rightarrow>
          block_copy_kernel_impl (unat (grid_dim l)) (unat (block_dim l)) (unat (count l)) src dst)"

text \<open>\<^verbatim>\<open>hipLaunchKernelGGL\<close>: the launch joins the queue and its kernel runs.\<close>

definition hipLaunchKernelGGL ::
  "('k, 'v) env \<Rightarrow> ('k \<Rightarrow> 'k \<Rightarrow> bool) \<Rightarrow> launch \<Rightarrow> ('k, 'v) world \<Rightarrow> ('k, 'v) world" where
  "hipLaunchKernelGGL e cmp l w =
     write_buffer (destination l)
       (run_kernel e cmp l (read_buffer (source l) w) (read_buffer (destination l) w))
       (w\<lparr>queue := queue w @ [l]\<rparr>)"

subsection \<open>The macro and the host function\<close>

text \<open>
  \<^verbatim>\<open>ROCPRIM_DETAIL_HIP_SYNC_AND_RETURN_ON_ERROR(name, size, start)\<close>: \<open>Inl\<close> is the
  \<^verbatim>\<open>return error\<close> of the enclosing function, \<open>Inr\<close> falls through.
\<close>

definition HIP_SYNC_AND_RETURN_ON_ERROR ::
  "('k, 'v) env \<Rightarrow> bool \<Rightarrow> string \<Rightarrow> 64 word \<Rightarrow> ('k, 'v) world \<Rightarrow>
   (hipError_t \<times> ('k, 'v) world) + ('k, 'v) world" where
  "HIP_SYNC_AND_RETURN_ON_ERROR e debug_synchronous name sz w =
     (let error = hipPeekAtLastError e (queue w) in
      if error \<noteq> hipSuccess then Inl (error, w)
      else if debug_synchronous then
        (let w1 = w\<lparr>stdout := stdout w @ [Stage name (unat sz)]\<rparr>;
             error = hipStreamSynchronize e (queue w1) in
         if error \<noteq> hipSuccess then Inl (error, w1)
         else Inr (w1\<lparr>stdout := stdout w1 @ [Elapsed]\<rparr>))
      else Inr w)"

text \<open>
  The body of the merge loop, lines 201 to 223: the selector is flipped first, then the
  pass goes from the output to the scratch buffer when the flipped selector is set and
  back otherwise.
\<close>

definition merge_pass ::
  "('k, 'v) env \<Rightarrow> ('k \<Rightarrow> 'k \<Rightarrow> bool) \<Rightarrow> bool \<Rightarrow> 64 word \<Rightarrow> 32 word \<Rightarrow> 32 word \<Rightarrow> 32 word \<Rightarrow> bool \<Rightarrow>
   ('k, 'v) world \<Rightarrow> (hipError_t \<times> ('k, 'v) world) + ('k, 'v) world" where
  "merge_pass e compare_function debug_synchronous sz grid_size block_size block temporary_store w =
     (if temporary_store then
        HIP_SYNC_AND_RETURN_ON_ERROR e debug_synchronous ''block_merge_buffer_kernel'' sz
          (hipLaunchKernelGGL e compare_function
             \<lparr>kernel = block_merge_kernel block, grid_dim = grid_size, block_dim = block_size,
              source = Output, destination = Buffer, count = sz\<rparr> w)
      else
        HIP_SYNC_AND_RETURN_ON_ERROR e debug_synchronous ''block_merge_kernel'' sz
          (hipLaunchKernelGGL e compare_function
             \<lparr>kernel = block_merge_kernel block, grid_dim = grid_size, block_dim = block_size,
              source = Buffer, destination = Output, count = sz\<rparr> w))"

text \<open>
  \<^verbatim>\<open>for(unsigned int block = block_size; block < sz; block *= 2)\<close>: \<open>block\<close> is a 32-bit
  value, widened for the comparison with the 64-bit \<open>size\<close> (here \<open>sz\<close>) and doubled modulo \<open>2 ^ 32\<close>.
  \<open>Inl\<close> is an early return out of \<^verbatim>\<open>sort_impl\<close>, \<open>Inr\<close> the end of the loop with the
  selector it ended on.
\<close>

partial_function (option) merge_loop ::
  "('k, 'v) env \<Rightarrow> ('k \<Rightarrow> 'k \<Rightarrow> bool) \<Rightarrow> bool \<Rightarrow> 64 word \<Rightarrow> 32 word \<Rightarrow> 32 word \<Rightarrow> 32 word \<Rightarrow> bool \<Rightarrow>
   ('k, 'v) world \<Rightarrow> ((hipError_t \<times> ('k, 'v) world) + (bool \<times> ('k, 'v) world)) option" where
  "merge_loop e compare_function debug_synchronous sz grid_size block_size block temporary_store w =
     (if (ucast block :: 64 word) < sz then
        (case merge_pass e compare_function debug_synchronous sz grid_size block_size block
                (\<not> temporary_store) w of
           Inl r \<Rightarrow> Some (Inl r)
         | Inr w' \<Rightarrow>
             merge_loop e compare_function debug_synchronous sz grid_size block_size (block * 2)
               (\<not> temporary_store) w')
      else Some (Inr (temporary_store, w)))"

declare merge_loop.simps [code]

text \<open>
  \<^verbatim>\<open>detail::sort_impl<BlockSize>\<close>. The scratch pointer is \<open>None\<close> for \<^verbatim>\<open>nullptr\<close>, and
  otherwise holds what the scratch region contains. \<open>BlockSize\<close> is a template
  argument; the public entry points fix it to 256.
\<close>

definition sort_impl ::
  "('k, 'v) env \<Rightarrow> 32 word \<Rightarrow> ('k \<times> 'v) list option \<Rightarrow> ('k, 'v) world \<Rightarrow> 64 word \<Rightarrow>
   ('k \<Rightarrow> 'k \<Rightarrow> bool) \<Rightarrow> bool \<Rightarrow> (hipError_t \<times> ('k, 'v) world) option" where
  "sort_impl e BlockSize temporary_storage w sz compare_function debug_synchronous =
     (let keys_bytes = align_size e (sz * sizeof_key e);
          values_bytes = (if with_values e then align_size e (sz * sizeof_value e) else 0);
          block_size = BlockSize
      in case temporary_storage of
           None \<Rightarrow>
             (let s = keys_bytes;
                  s = (if with_values e then s + values_bytes else s);
                  s = (if s = 0 then 4 else s)
              in Some (hipSuccess, w\<lparr>storage_size := s\<rparr>))
         | Some ptr \<Rightarrow>
             (let number_of_blocks = (sz + ucast block_size - 1) div ucast block_size;
                  w = (if debug_synchronous
                       then w\<lparr>stdout := stdout w @
                              [Number ''block_size '' (unat block_size),
                               Number ''number of blocks '' (unat number_of_blocks)]\<rparr>
                       else w);
                  grid_size = (ucast number_of_blocks :: 32 word);
                  w = w\<lparr>scratch_seq := ptr\<rparr>
              in case HIP_SYNC_AND_RETURN_ON_ERROR e debug_synchronous ''block_sort_kernel'' sz
                        (hipLaunchKernelGGL e compare_function
                           \<lparr>kernel = block_sort_kernel, grid_dim = grid_size, block_dim = block_size,
                            source = Input, destination = Output, count = sz\<rparr> w) of
                   Inl r \<Rightarrow> Some r
                 | Inr w \<Rightarrow>
                     (case merge_loop e compare_function debug_synchronous sz grid_size block_size
                             block_size False w of
                        None \<Rightarrow> None
                      | Some (Inl r) \<Rightarrow> Some r
                      | Some (Inr (temporary_store, w)) \<Rightarrow>
                          (if temporary_store then
                             (case HIP_SYNC_AND_RETURN_ON_ERROR e debug_synchronous
                                     ''block_copy_kernel'' sz
                                     (hipLaunchKernelGGL e compare_function
                                        \<lparr>kernel = block_copy_kernel, grid_dim = grid_size,
                                         block_dim = block_size, source = Buffer,
                                         destination = Output, count = sz\<rparr> w) of
                                Inl r \<Rightarrow> Some r
                              | Inr w \<Rightarrow> Some (hipSuccess, w))
                           else Some (hipSuccess, w)))))"

text \<open>
  The public overloads of \<^verbatim>\<open>sort\<close>, both with \<^verbatim>\<open>block_size = 256\<close>: keys with values, and
  keys only, where the values are \<^verbatim>\<open>empty_type\<close> and take no part.
\<close>

definition sort_pairs ::
  "('k, 'v) env \<Rightarrow> ('k \<times> 'v) list option \<Rightarrow> ('k, 'v) world \<Rightarrow> 64 word \<Rightarrow>
   ('k \<Rightarrow> 'k \<Rightarrow> bool) \<Rightarrow> bool \<Rightarrow> (hipError_t \<times> ('k, 'v) world) option" where
  "sort_pairs e temporary_storage w sz compare_function debug_synchronous =
     sort_impl e 256 temporary_storage w sz compare_function debug_synchronous"

definition sort_keys ::
  "('k, unit) env \<Rightarrow> ('k \<times> unit) list option \<Rightarrow> ('k, unit) world \<Rightarrow> 64 word \<Rightarrow>
   ('k \<Rightarrow> 'k \<Rightarrow> bool) \<Rightarrow> bool \<Rightarrow> (hipError_t \<times> ('k, unit) world) option" where
  "sort_keys e temporary_storage w sz compare_function debug_synchronous =
     sort_impl (e\<lparr>with_values := False\<rparr>) 256 temporary_storage w sz compare_function
       debug_synchronous"

subsection \<open>Notions the properties are stated with\<close>

text \<open>
  The scratch size as section 4.1 of the specification words it: the aligned bytes of
  the keys, plus the aligned bytes of the values when values take part, and 4 when that
  is zero.
\<close>

definition required_storage :: "('k, 'v) env \<Rightarrow> 64 word \<Rightarrow> 64 word" where
  "required_storage e sz =
     (let total = align_size e (sz * sizeof_key e) +
                  (if with_values e then align_size e (sz * sizeof_value e) else 0)
      in if total = 0 then 4 else total)"

text \<open>The status a stage ends with, given the work launched up to and including it.\<close>

definition stage_status :: "('k, 'v) env \<Rightarrow> bool \<Rightarrow> launch list \<Rightarrow> hipError_t" where
  "stage_status e debug_synchronous q =
     (if hipPeekAtLastError e q \<noteq> hipSuccess then hipPeekAtLastError e q
      else if debug_synchronous then hipStreamSynchronize e q
      else hipSuccess)"

text \<open>A runtime that never reports a failure.\<close>

definition no_failure :: "('k, 'v) env \<Rightarrow> bool" where
  "no_failure e =
     (\<forall>q. hipPeekAtLastError e q = hipSuccess \<and> hipStreamSynchronize e q = hipSuccess)"

text \<open>
  The ordering predicate is a strict weak ordering: irreflexive, transitive, and with
  a transitive incomparability.
\<close>

definition strict_weak_ordering :: "('k \<Rightarrow> 'k \<Rightarrow> bool) \<Rightarrow> bool" where
  "strict_weak_ordering cmp =
     ((\<forall>a. \<not> cmp a a) \<and>
      (\<forall>a b c. cmp a b \<and> cmp b c \<longrightarrow> cmp a c) \<and>
      (\<forall>a b c. \<not> cmp a b \<and> \<not> cmp b a \<and> \<not> cmp b c \<and> \<not> cmp c b \<longrightarrow> \<not> cmp a c \<and> \<not> cmp c a))"

text \<open>
  Sorted under the predicate: no later key is strictly less than an earlier one; for
  adjacent positions this is the check of the test suite.
\<close>

definition sorted_by :: "('k \<Rightarrow> 'k \<Rightarrow> bool) \<Rightarrow> ('k \<times> 'v) list \<Rightarrow> bool" where
  "sorted_by cmp xs = sorted_wrt (\<lambda>a b. \<not> cmp (fst b) (fst a)) xs"

text \<open>
  Modelled from the spec: what section 4.2 asks of the sort a thread group applies to
  its chunk (the missing \<^verbatim>\<open>block_sort_kernel_impl\<close>): the chunk comes out as a
  permutation of itself, sorted under the predicate. Nothing is said about ties.
\<close>

definition group_sort_ok ::
  "('k \<Rightarrow> 'k \<Rightarrow> bool) \<Rightarrow> (('k \<Rightarrow> 'k \<Rightarrow> bool) \<Rightarrow> ('k \<times> 'v) list \<Rightarrow> ('k \<times> 'v) list) \<Rightarrow> bool" where
  "group_sort_ok cmp gs = (\<forall>xs. mset (gs cmp xs) = mset xs \<and> sorted_by cmp (gs cmp xs))"

text \<open>The world without what was printed.\<close>

definition silent :: "('k, 'v) world \<Rightarrow> ('k, 'v) world" where
  "silent w = w\<lparr>stdout := []\<rparr>"

text \<open>Which stage a launch belongs to.\<close>

definition is_merge :: "launch \<Rightarrow> bool" where
  "is_merge l = (case kernel l of block_merge_kernel b \<Rightarrow> True | _ \<Rightarrow> False)"

definition is_copy :: "launch \<Rightarrow> bool" where
  "is_copy l = (case kernel l of block_copy_kernel \<Rightarrow> True | _ \<Rightarrow> False)"

definition is_group_sort :: "launch \<Rightarrow> bool" where
  "is_group_sort l = (case kernel l of block_sort_kernel \<Rightarrow> True | _ \<Rightarrow> False)"

text \<open>The grid size of \<^verbatim>\<open>sort_impl\<close>, and the launches of its first and last stage.\<close>

definition grid_size_of :: "32 word \<Rightarrow> 64 word \<Rightarrow> 32 word" where
  "grid_size_of block_size sz = ucast ((sz + ucast block_size - 1) div ucast block_size)"

definition sort_launch :: "64 word \<Rightarrow> 32 word \<Rightarrow> 32 word \<Rightarrow> launch" where
  "sort_launch sz grid_size block_size =
     \<lparr>kernel = block_sort_kernel, grid_dim = grid_size, block_dim = block_size,
      source = Input, destination = Output, count = sz\<rparr>"

definition copy_launch :: "64 word \<Rightarrow> 32 word \<Rightarrow> 32 word \<Rightarrow> launch" where
  "copy_launch sz grid_size block_size =
     \<lparr>kernel = block_copy_kernel, grid_dim = grid_size, block_dim = block_size,
      source = Buffer, destination = Output, count = sz\<rparr>"

text \<open>The launch of a merge pass.\<close>

definition pass_launch :: "64 word \<Rightarrow> 32 word \<Rightarrow> 32 word \<Rightarrow> 32 word \<Rightarrow> bool \<Rightarrow> launch" where
  "pass_launch sz grid_size block_size block temporary_store =
     \<lparr>kernel = block_merge_kernel block, grid_dim = grid_size, block_dim = block_size,
      source = (if temporary_store then Output else Buffer),
      destination = (if temporary_store then Buffer else Output), count = sz\<rparr>"

text \<open>
  The world \<^verbatim>\<open>sort_impl\<close> launches the group sort in: the two lines of diagnostics
  are printed and the scratch pointer is taken as the scratch buffer.
\<close>

definition entry_world ::
  "bool \<Rightarrow> 32 word \<Rightarrow> 64 word \<Rightarrow> ('k \<times> 'v) list \<Rightarrow> ('k, 'v) world \<Rightarrow> ('k, 'v) world" where
  "entry_world debug_synchronous block_size sz ptr w =
     (if debug_synchronous
      then w\<lparr>stdout := stdout w @
             [Number ''block_size '' (unat block_size),
              Number ''number of blocks '' (unat ((sz + ucast block_size - 1) div ucast block_size))]\<rparr>
      else w)\<lparr>scratch_seq := ptr\<rparr>"

subsection \<open>Notions of the proofs\<close>

text \<open>
  The states the merge loop passes through at its head, from the world \<open>w0\<close> the group
  sort left: a pass is taken while the width is below \<open>sz\<close> and its stage reports
  success.
\<close>

inductive loop_reach ::
  "('k, 'v) env \<Rightarrow> ('k \<Rightarrow> 'k \<Rightarrow> bool) \<Rightarrow> bool \<Rightarrow> 64 word \<Rightarrow> 32 word \<Rightarrow> 32 word \<Rightarrow> ('k, 'v) world \<Rightarrow>
   32 word \<Rightarrow> bool \<Rightarrow> ('k, 'v) world \<Rightarrow> bool"
  for e cmp d sz g bs w0 where
    start: "loop_reach e cmp d sz g bs w0 bs False w0"
  | pass: "loop_reach e cmp d sz g bs w0 block ts wk \<Longrightarrow> ucast block < sz \<Longrightarrow>
           stage_status e d (queue wk @ [pass_launch sz g bs block (\<not> ts)]) = hipSuccess \<Longrightarrow>
           loop_reach e cmp d sz g bs w0 (block * 2) (\<not> ts)
             (hipLaunchKernelGGL e cmp (pass_launch sz g bs block (\<not> ts)) wk)"

text \<open>The three ways a call with a scratch buffer returns.\<close>

definition outcome ::
  "('k, 'v) env \<Rightarrow> ('k \<Rightarrow> 'k \<Rightarrow> bool) \<Rightarrow> bool \<Rightarrow> 64 word \<Rightarrow> 32 word \<Rightarrow> 32 word \<Rightarrow> ('k, 'v) world \<Rightarrow>
   hipError_t \<Rightarrow> ('k, 'v) world \<Rightarrow> bool" where
  "outcome e cmp d sz g bs w0 st w' =
     ((st = stage_status e d (queue w0) \<and> st \<noteq> hipSuccess \<and> w' = w0) \<or>
      (stage_status e d (queue w0) = hipSuccess \<and>
       (\<exists>block ts wk. loop_reach e cmp d sz g bs w0 block ts wk \<and>
          ((ucast block < sz \<and> w' = hipLaunchKernelGGL e cmp (pass_launch sz g bs block (\<not> ts)) wk \<and>
            st = stage_status e d (queue w') \<and> st \<noteq> hipSuccess) \<or>
           (\<not> ucast block < sz \<and> \<not> ts \<and> w' = wk \<and> st = hipSuccess) \<or>
           (\<not> ucast block < sz \<and> ts \<and> w' = hipLaunchKernelGGL e cmp (copy_launch sz g bs) wk \<and>
            st = stage_status e d (queue w'))))))"

text \<open>The buffer the active-buffer selector points at: the scratch buffer when it is set.\<close>

definition active :: "bool \<Rightarrow> ('k, 'v) world \<Rightarrow> ('k \<times> 'v) list" where
  "active temporary_store w = (if temporary_store then scratch_seq w else output_seq w)"

text \<open>The data is a sequence of runs of width \<open>w\<close>, each sorted.\<close>

function runs_sorted :: "('k \<Rightarrow> 'k \<Rightarrow> bool) \<Rightarrow> nat \<Rightarrow> ('k \<times> 'v) list \<Rightarrow> bool" where
  "runs_sorted cmp w xs =
     (if w = 0 \<or> xs = [] then True
      else sorted_by cmp (take w xs) \<and> runs_sorted cmp w (drop w xs))"
  by pat_completeness auto
termination
  by (relation "measure (\<lambda>(cmp, w, xs). length xs)") auto

text \<open>The number of merge passes of a loop that starts at width \<open>w\<close>, without wrap-around.\<close>

function num_passes :: "nat \<Rightarrow> nat \<Rightarrow> nat" where
  "num_passes w n = (if 0 < w \<and> w < n then Suc (num_passes (2 * w) n) else 0)"
  by pat_completeness auto
termination
  by (relation "measure (\<lambda>(w, n). n - w)") auto

text \<open>
  Above \<open>2 ^ 31\<close> elements the width runs through the powers of two up to \<open>2 ^ 31\<close>, wraps
  to 0 and stays there, below \<open>sz\<close> all the time: the loop has no normal end.
\<close>

definition wrapping :: "32 word \<Rightarrow> bool" where
  "wrapping block = (block = 0 \<or> (\<exists>j \<le> 31. block = 2 ^ j))"

subsection \<open>Concrete group sorts, runtimes and worlds\<close>

text \<open>
  Two group sorts that meet section 4.2, for concrete runs: an insertion sort that
  keeps ties in input order, and the same sort run on the reversed chunk, which
  reverses ties.
\<close>

fun insert_before :: "('k \<Rightarrow> 'k \<Rightarrow> bool) \<Rightarrow> ('k \<times> 'v) \<Rightarrow> ('k \<times> 'v) list \<Rightarrow> ('k \<times> 'v) list" where
  "insert_before cmp x [] = [x]"
| "insert_before cmp x (y # ys) =
     (if cmp (fst y) (fst x) then y # insert_before cmp x ys else x # y # ys)"

definition insertion_sort :: "('k \<Rightarrow> 'k \<Rightarrow> bool) \<Rightarrow> ('k \<times> 'v) list \<Rightarrow> ('k \<times> 'v) list" where
  "insertion_sort cmp xs = foldr (insert_before cmp) xs []"

definition reversing_sort :: "('k \<Rightarrow> 'k \<Rightarrow> bool) \<Rightarrow> ('k \<times> 'v) list \<Rightarrow> ('k \<times> 'v) list" where
  "reversing_sort cmp xs = insertion_sort cmp (rev xs)"

text \<open>A runtime that reports success whatever is launched, around a given group sort; sizes
  are aligned to 256 bytes and keys and values take four bytes each.\<close>

definition quiet_env ::
  "(('k \<Rightarrow> 'k \<Rightarrow> bool) \<Rightarrow> ('k \<times> 'v) list \<Rightarrow> ('k \<times> 'v) list) \<Rightarrow> bool \<Rightarrow> ('k, 'v) env" where
  "quiet_env gs vals =
     \<lparr>align_size = (\<lambda>x. (x + 255) div 256 * 256), sizeof_key = 4, sizeof_value = 4,
      with_values = vals, group_sort = gs,
      hipPeekAtLastError = (\<lambda>q. hipSuccess), hipStreamSynchronize = (\<lambda>q. hipSuccess)\<rparr>"

text \<open>A runtime whose \<^verbatim>\<open>hipPeekAtLastError\<close> reports \<open>err\<close> once \<open>k\<close> kernels are queued.\<close>

definition failing_env ::
  "(('k \<Rightarrow> 'k \<Rightarrow> bool) \<Rightarrow> ('k \<times> 'v) list \<Rightarrow> ('k \<times> 'v) list) \<Rightarrow> nat \<Rightarrow> hipError_t \<Rightarrow> ('k, 'v) env" where
  "failing_env gs k err =
     \<lparr>align_size = (\<lambda>x. (x + 255) div 256 * 256), sizeof_key = 4, sizeof_value = 4,
      with_values = True, group_sort = gs,
      hipPeekAtLastError = (\<lambda>q. if length q = k then err else hipSuccess),
      hipStreamSynchronize = (\<lambda>q. hipSuccess)\<rparr>"

text \<open>Three keys with their values, unsorted, and an output buffer of three elements.\<close>

definition three_pairs :: "(nat, nat) world" where
  "three_pairs =
     \<lparr>storage_size = 0, input_seq = [(3, 10), (1, 20), (2, 30)],
      output_seq = [(0, 0), (0, 0), (0, 0)], scratch_seq = [], queue = [], stdout = []\<rparr>"

text \<open>257 pairs, one more than a thread group takes: 256 with key 1, then one with key 0.\<close>

definition late_zero :: "(nat, nat) world" where
  "late_zero =
     \<lparr>storage_size = 0, input_seq = replicate 256 (1, 5) @ [(0, 7)],
      output_seq = replicate 257 (9, 9), scratch_seq = [], queue = [], stdout = []\<rparr>"

text \<open>Two pairs with one key, already sorted.\<close>

definition two_ties :: "(nat, nat) world" where
  "two_ties =
     \<lparr>storage_size = 0, input_seq = [(1, 10), (1, 20)],
      output_seq = [(0, 0), (0, 0)], scratch_seq = [], queue = [], stdout = []\<rparr>"

text \<open>
  More than \<open>2 ^ 31\<close> keys in ascending order, each with itself as its value: an already
  sorted input without ties.
\<close>

definition ascending :: "(nat, nat) world" where
  "ascending =
     \<lparr>storage_size = 0, input_seq = map (\<lambda>i. (i, i)) [0..<2 ^ 31 + 1],
      output_seq = replicate (2 ^ 31 + 1) (0, 0), scratch_seq = [], queue = [], stdout = []\<rparr>"

section \<open>Properties\<close>

declare merge_runs.simps [simp del] runs_sorted.simps [simp del] num_passes.simps [simp del]

subsection \<open>The macro\<close>

lemma sync_Inr:
  assumes "HIP_SYNC_AND_RETURN_ON_ERROR e d name sz w = Inr w1"
  shows "silent w1 = silent w \<and> stage_status e d (queue w) = hipSuccess"
  using assms
  by (auto simp: HIP_SYNC_AND_RETURN_ON_ERROR_def stage_status_def silent_def Let_def
           split: if_splits)

lemma sync_Inl:
  assumes "HIP_SYNC_AND_RETURN_ON_ERROR e d name sz w = Inl (st, w1)"
  shows "silent w1 = silent w \<and> st = stage_status e d (queue w) \<and> st \<noteq> hipSuccess"
  using assms
  by (auto simp: HIP_SYNC_AND_RETURN_ON_ERROR_def stage_status_def silent_def Let_def
           split: if_splits)

lemma sync_status:
  "(\<exists>w1. HIP_SYNC_AND_RETURN_ON_ERROR e d name sz w = Inr w1) = (stage_status e d (queue w) = hipSuccess)"
  by (auto simp: HIP_SYNC_AND_RETURN_ON_ERROR_def stage_status_def Let_def)

lemma silent_launch:
  "silent (hipLaunchKernelGGL e cmp l w) = hipLaunchKernelGGL e cmp l (silent w)"
  by (cases "source l"; cases "destination l") (simp_all add: hipLaunchKernelGGL_def silent_def)

lemma queue_launch [simp]: "queue (hipLaunchKernelGGL e cmp l w) = queue w @ [l]"
  by (cases "destination l") (simp_all add: hipLaunchKernelGGL_def)

lemma merge_pass_Inr:
  assumes "merge_pass e cmp d sz g bs block ts w = Inr w1"
  shows "silent w1 = hipLaunchKernelGGL e cmp (pass_launch sz g bs block ts) (silent w)
         \<and> stage_status e d (queue w @ [pass_launch sz g bs block ts]) = hipSuccess"
  using assms
  by (auto simp: merge_pass_def pass_launch_def silent_launch[symmetric] dest!: sync_Inr split: if_splits)

lemma merge_pass_Inl:
  assumes "merge_pass e cmp d sz g bs block ts w = Inl (st, w1)"
  shows "silent w1 = hipLaunchKernelGGL e cmp (pass_launch sz g bs block ts) (silent w)
         \<and> st = stage_status e d (queue w @ [pass_launch sz g bs block ts]) \<and> st \<noteq> hipSuccess"
  using assms
  by (auto simp: merge_pass_def pass_launch_def silent_launch[symmetric] dest!: sync_Inl split: if_splits)

subsection \<open>Rules for the loop\<close>

lemma merge_loop_Inr_rule:
  fixes w' :: "('k, 'v) world"
  assumes run: "merge_loop e cmp d sz g bs block ts w = Some (Inr (ts', w'))"
      and init: "I block ts w"
      and step: "\<And>block ts w w1. I block ts w \<Longrightarrow> ucast block < sz \<Longrightarrow>
                   merge_pass e cmp d sz g bs block (\<not> ts) w = Inr w1 \<Longrightarrow> I (block * 2) (\<not> ts) w1"
  shows "\<exists>block'. I block' ts' w' \<and> \<not> ucast block' < sz"
proof -
  let ?P = "\<lambda>e' cmp' d' sz' g' bs' block ts w (r :: (hipError_t \<times> ('k, 'v) world) + (bool \<times> ('k, 'v) world)).
        e' = e \<longrightarrow> cmp' = cmp \<longrightarrow> d' = d \<longrightarrow> sz' = sz \<longrightarrow> g' = g \<longrightarrow> bs' = bs \<longrightarrow> I block ts w \<longrightarrow>
        r = Inr (ts', w') \<longrightarrow> (\<exists>block'. I block' ts' w' \<and> \<not> ucast block' < sz)"
  have "?P e cmp d sz g bs block ts w (Inr (ts', w'))"
  proof (rule merge_loop.raw_induct[where P = ?P, OF _ run], goal_cases)
    case (1 loop e' cmp' d' sz' g' bs' block ts w r)
    show ?case
    proof (intro impI)
      assume eqs: "e' = e" "cmp' = cmp" "d' = d" "sz' = sz" "g' = g" "bs' = bs"
         and I: "I block ts w" and r: "r = Inr (ts', w')"
      show "\<exists>block'. I block' ts' w' \<and> \<not> ucast block' < sz"
      proof (cases "(ucast block :: 64 word) < sz")
        case False
        with 1(2) eqs r have "ts' = ts" "w' = w" by simp_all
        with I False show ?thesis by auto
      next
        case True
        show ?thesis
        proof (cases "merge_pass e cmp d sz g bs block (\<not> ts) w")
          case (Inl a)
          with True 1(2) eqs r show ?thesis by simp
        next
          case (Inr w1)
          with True 1(2) eqs have "loop e cmp d sz g bs (block * 2) (\<not> ts) w1 = Some r" by simp
          moreover have "I (block * 2) (\<not> ts) w1" using step[OF I True Inr] .
          ultimately show ?thesis using 1(1)[of e cmp d sz g bs "block * 2" "\<not> ts" w1 r] r by simp
        qed
      qed
    qed
  qed
  with init show ?thesis by simp
qed

lemma merge_loop_Inl_rule:
  fixes w :: "('k, 'v) world"
  assumes run: "merge_loop e cmp d sz g bs block ts w = Some (Inl x)"
      and init: "I block ts w"
      and step: "\<And>block ts w w1. I block ts w \<Longrightarrow> ucast block < sz \<Longrightarrow>
                   merge_pass e cmp d sz g bs block (\<not> ts) w = Inr w1 \<Longrightarrow> I (block * 2) (\<not> ts) w1"
  shows "\<exists>block ts w. I block ts w \<and> ucast block < sz \<and>
           merge_pass e cmp d sz g bs block (\<not> ts) w = Inl x"
proof -
  let ?Q = "\<exists>block ts w. I block ts w \<and> ucast block < sz \<and>
           merge_pass e cmp d sz g bs block (\<not> ts) w = Inl x"
  let ?P = "\<lambda>e' cmp' d' sz' g' bs' block ts w (r :: (hipError_t \<times> ('k, 'v) world) + (bool \<times> ('k, 'v) world)).
        e' = e \<longrightarrow> cmp' = cmp \<longrightarrow> d' = d \<longrightarrow> sz' = sz \<longrightarrow> g' = g \<longrightarrow> bs' = bs \<longrightarrow> I block ts w \<longrightarrow>
        r = Inl x \<longrightarrow> ?Q"
  have "?P e cmp d sz g bs block ts w (Inl x)"
  proof (rule merge_loop.raw_induct[where P = ?P, OF _ run], goal_cases)
    case (1 loop e' cmp' d' sz' g' bs' block ts w r)
    show ?case
    proof (intro impI)
      assume eqs: "e' = e" "cmp' = cmp" "d' = d" "sz' = sz" "g' = g" "bs' = bs"
         and I: "I block ts w" and r: "r = Inl x"
      show ?Q
      proof (cases "(ucast block :: 64 word) < sz")
        case False
        with 1(2) eqs r show ?thesis by simp
      next
        case True
        show ?thesis
        proof (cases "merge_pass e cmp d sz g bs block (\<not> ts) w")
          case (Inl a)
          with True 1(2) eqs r have "a = x" by simp
          with Inl True I show ?thesis by blast
        next
          case (Inr w1)
          with True 1(2) eqs have "loop e cmp d sz g bs (block * 2) (\<not> ts) w1 = Some r" by simp
          moreover have "I (block * 2) (\<not> ts) w1" using step[OF I True Inr] .
          ultimately show ?thesis using 1(1)[of e cmp d sz g bs "block * 2" "\<not> ts" w1 r] r by simp
        qed
      qed
    qed
  qed
  with init show ?thesis by simp
qed

subsection \<open>What a call of the host function amounts to\<close>

lemma silent_idem [simp]: "silent (silent w) = silent w"
  by (simp add: silent_def)

lemma queue_silent [simp]: "queue (silent w) = queue w"
  by (simp add: silent_def)

lemma merge_loop_reach:
  assumes run: "merge_loop e cmp d sz g bs bs False w1 = Some (Inr (ts', w'))"
  shows "\<exists>block'. loop_reach e cmp d sz g bs (silent w1) block' ts' (silent w') \<and> \<not> ucast block' < sz"
proof (rule merge_loop_Inr_rule[OF run, where I = "\<lambda>block ts w. loop_reach e cmp d sz g bs (silent w1) block ts (silent w)"])
  show "loop_reach e cmp d sz g bs (silent w1) bs False (silent w1)" by (rule loop_reach.start)
next
  fix block ts w w2
  assume r: "loop_reach e cmp d sz g bs (silent w1) block ts (silent w)"
     and c: "(ucast block :: 64 word) < sz"
     and p: "merge_pass e cmp d sz g bs block (\<not> ts) w = Inr w2"
  from merge_pass_Inr[OF p] loop_reach.pass[OF r c]
  show "loop_reach e cmp d sz g bs (silent w1) (block * 2) (\<not> ts) (silent w2)" by simp
qed

lemma merge_loop_reach_fail:
  assumes run: "merge_loop e cmp d sz g bs bs False w1 = Some (Inl (st, w'))"
  shows "\<exists>block ts wk. loop_reach e cmp d sz g bs (silent w1) block ts wk \<and> ucast block < sz \<and>
           silent w' = hipLaunchKernelGGL e cmp (pass_launch sz g bs block (\<not> ts)) wk \<and>
           st = stage_status e d (queue wk @ [pass_launch sz g bs block (\<not> ts)]) \<and> st \<noteq> hipSuccess"
proof -
  have "\<exists>block ts w. loop_reach e cmp d sz g bs (silent w1) block ts (silent w) \<and> ucast block < sz \<and>
           merge_pass e cmp d sz g bs block (\<not> ts) w = Inl (st, w')"
  proof (rule merge_loop_Inl_rule[OF run, where I = "\<lambda>block ts w. loop_reach e cmp d sz g bs (silent w1) block ts (silent w)"])
    show "loop_reach e cmp d sz g bs (silent w1) bs False (silent w1)" by (rule loop_reach.start)
  next
    fix block ts w w2
    assume r: "loop_reach e cmp d sz g bs (silent w1) block ts (silent w)"
       and c: "(ucast block :: 64 word) < sz"
       and p: "merge_pass e cmp d sz g bs block (\<not> ts) w = Inr w2"
    from merge_pass_Inr[OF p] loop_reach.pass[OF r c]
    show "loop_reach e cmp d sz g bs (silent w1) (block * 2) (\<not> ts) (silent w2)" by simp
  qed
  then obtain block ts w where r: "loop_reach e cmp d sz g bs (silent w1) block ts (silent w)"
     and c: "(ucast block :: 64 word) < sz"
     and p: "merge_pass e cmp d sz g bs block (\<not> ts) w = Inl (st, w')" by blast
  from merge_pass_Inl[OF p] r c show ?thesis
    by (intro exI[of _ block] exI[of _ ts] exI[of _ "silent w"]) auto
qed

lemma sort_impl_outcome:
  assumes run: "sort_impl e bs (Some ptr) w sz cmp d = Some (st, w')"
  shows "outcome e cmp d sz (grid_size_of bs sz) bs
           (hipLaunchKernelGGL e cmp (sort_launch sz (grid_size_of bs sz) bs) ((silent w)\<lparr>scratch_seq := ptr\<rparr>))
           st (silent w')"
proof -
  define g where "g = grid_size_of bs sz"
  define wa where "wa = (if d then w\<lparr>stdout := stdout w @
                              [Number ''block_size '' (unat bs),
                               Number ''number of blocks '' (unat ((sz + ucast bs - 1) div ucast bs))]\<rparr>
                       else w)\<lparr>scratch_seq := ptr\<rparr>"
  define w0 where "w0 = hipLaunchKernelGGL e cmp (sort_launch sz g bs) ((silent w)\<lparr>scratch_seq := ptr\<rparr>)"
  define s0 where "s0 = HIP_SYNC_AND_RETURN_ON_ERROR e d ''block_sort_kernel'' sz (hipLaunchKernelGGL e cmp (sort_launch sz g bs) wa)"
  define copy where "copy = (\<lambda>w2. HIP_SYNC_AND_RETURN_ON_ERROR e d ''block_copy_kernel'' sz
                          (hipLaunchKernelGGL e cmp (copy_launch sz g bs) w2))"
  have wa: "silent wa = (silent w)\<lparr>scratch_seq := ptr\<rparr>" by (simp add: silent_def wa_def)
  have w0: "silent (hipLaunchKernelGGL e cmp (sort_launch sz g bs) wa) = w0"
    unfolding silent_launch wa w0_def ..
  have q0: "queue (hipLaunchKernelGGL e cmp (sort_launch sz g bs) wa) = queue w0"
    using arg_cong[OF w0, of queue] by simp
  have unf: "sort_impl e bs (Some ptr) w sz cmp d =
     (case s0 of Inl r \<Rightarrow> Some r
      | Inr w1 \<Rightarrow>
          (case merge_loop e cmp d sz g bs bs False w1 of None \<Rightarrow> None
           | Some (Inl r) \<Rightarrow> Some r
           | Some (Inr (ts, w2)) \<Rightarrow>
               (if ts then
                  (case copy w2 of
                     Inl r \<Rightarrow> Some r | Inr w3 \<Rightarrow> Some (hipSuccess, w3))
                else Some (hipSuccess, w2))))"
    unfolding sort_impl_def Let_def grid_size_of_def sort_launch_def copy_launch_def
       s0_def g_def wa_def copy_def by simp
  have copy_Inl: "silent w3 = hipLaunchKernelGGL e cmp (copy_launch sz g bs) (silent w2) \<and>
            x = stage_status e d (queue (hipLaunchKernelGGL e cmp (copy_launch sz g bs) (silent w2)))"
    if "copy w2 = Inl (x, w3)" for w2 w3 x
    using sync_Inl[OF that[unfolded copy_def]] by (simp add: silent_launch)
  have copy_Inr: "silent w3 = hipLaunchKernelGGL e cmp (copy_launch sz g bs) (silent w2) \<and>
            hipSuccess = stage_status e d (queue (hipLaunchKernelGGL e cmp (copy_launch sz g bs) (silent w2)))"
    if "copy w2 = Inr w3" for w2 w3
    using sync_Inr[OF that[unfolded copy_def]] by (simp add: silent_launch)
  have "outcome e cmp d sz g bs w0 st (silent w')"
  proof (cases s0)
    case (Inl r)
    with run unf have r: "r = (st, w')" by simp
    from sync_Inl[OF Inl[unfolded r s0_def]] w0 q0
    have "st = stage_status e d (queue w0)" "st \<noteq> hipSuccess" "silent w' = w0" by auto
    then show ?thesis unfolding outcome_def by blast
  next
    case (Inr w1)
    from sync_Inr[OF Inr[unfolded s0_def]] w0 q0
    have w1: "silent w1 = w0" and st0: "stage_status e d (queue w0) = hipSuccess"
      by auto
    from run unf Inr obtain x where x: "merge_loop e cmp d sz g bs bs False w1 = Some x"
      by (cases "merge_loop e cmp d sz g bs bs False w1") simp_all
    show ?thesis
    proof (cases x)
      case (Inl r)
      with run unf \<open>s0 = Inr w1\<close> x have r: "r = (st, w')" by simp
      from merge_loop_reach_fail[OF x[unfolded Inl r]]
      obtain block ts wk where "loop_reach e cmp d sz g bs w0 block ts wk" "ucast block < sz"
           "silent w' = hipLaunchKernelGGL e cmp (pass_launch sz g bs block (\<not> ts)) wk"
           "st = stage_status e d (queue (silent w'))" "st \<noteq> hipSuccess"
        unfolding w1 by auto
      with st0 show ?thesis unfolding outcome_def by blast
    next
      case (Inr p)
      obtain ts w2 where p: "p = (ts, w2)" by (cases p)
      from merge_loop_reach[OF x[unfolded Inr p]] w1
      obtain block where reach: "loop_reach e cmp d sz g bs w0 block ts (silent w2)"
        and exit: "\<not> (ucast block :: 64 word) < sz" by auto
      show ?thesis
      proof (cases ts)
        case False
        with run unf \<open>s0 = Inr w1\<close> x Inr p have "st = hipSuccess" "w' = w2" by simp_all
        with reach exit False st0 show ?thesis unfolding outcome_def by blast
      next
        case True
        show ?thesis
        proof (cases "copy w2")
          case (Inl r)
          with run unf \<open>s0 = Inr w1\<close> x \<open>x = Inr p\<close> p True have r: "r = (st, w')" by simp
          from copy_Inl[OF Inl[unfolded r]] reach exit True st0 show ?thesis
            unfolding outcome_def by auto
        next
          case (Inr w3)
          with run unf \<open>s0 = Inr w1\<close> x \<open>x = Inr p\<close> p True have r: "st = hipSuccess" "w' = w3" by simp_all
          from copy_Inr[OF Inr] r reach exit True st0 show ?thesis
            unfolding outcome_def by auto
        qed
      qed
    qed
  qed
  then show ?thesis by (simp only: w0_def g_def)
qed

subsection \<open>Word arithmetic of the host function\<close>

lemma unat_block_less: "unat (b :: 32 word) < 2 ^ 32"
  using unsigned_less[of b] by simp

lemma unat_ucast_block: "unat (ucast (b :: 32 word) :: 64 word) = unat b"
proof -
  have "unat b < 2 ^ 64" using unat_block_less[of b] by simp
  then show ?thesis by (simp add: unsigned_ucast_eq take_bit_nat_eq_self_iff)
qed

lemma unat_ucast_size: "unat (ucast (x :: 64 word) :: 32 word) = unat x mod 2 ^ 32"
  by (simp add: unsigned_ucast_eq take_bit_eq_mod)

lemma unat_double: "unat (b :: 32 word) < 2 ^ 31 \<Longrightarrow> unat (b * 2) = 2 * unat b"
  by (simp add: unat_word_ariths)

lemma loop_condition: "((ucast (b :: 32 word) :: 64 word) < sz) = (unat b < unat sz)"
  by (simp add: word_less_nat_alt unat_ucast_block)

lemma unat_number_of_blocks:
  "unat ((sz + ucast (256 :: 32 word) - 1) div ucast (256 :: 32 word) :: 64 word) =
   ((unat sz + 255) mod 2 ^ 64) div 256"
proof -
  have a: "(sz + ucast (256 :: 32 word) - 1) = sz + (255 :: 64 word)" by simp
  have b: "unat (sz + (255 :: 64 word)) = (unat sz + unat (255 :: 64 word)) mod 2 ^ LENGTH(64)"
    by (rule unat_word_ariths(1))
  have c: "unat (ucast (256 :: 32 word) :: 64 word) = 256" by simp
  have d: "unat (255 :: 64 word) = 255" by simp
  show ?thesis unfolding a unat_div b c d by simp
qed

lemma wrapped_ceiling:
  assumes n: "(n::nat) < 18446744073709551616"
  shows "(((n + 255) mod 18446744073709551616) div 256) mod 4294967296 =
         ((n + 255) div 256) mod 4294967296"
proof (cases "n + 255 < 18446744073709551616")
  case True
  then show ?thesis by simp
next
  case False
  from False n have a: "(n + 255) mod 18446744073709551616 = n + 255 - 18446744073709551616"
    by (simp add: mod_if)
  from False n have b: "(n + 255 - 18446744073709551616) div 256 = 0" by simp
  have c: "(n + 255) div 256 = 72057594037927936"
    by (rule div_nat_eqI) (use False n in simp_all)
  show ?thesis unfolding a b c by simp
qed

lemma unat_grid_size_of: "unat (grid_size_of 256 sz) = ((unat sz + 255) div 256) mod 2 ^ 32"
proof -
  have "unat sz < 18446744073709551616" using unsigned_less[of sz] by simp
  from wrapped_ceiling[OF this] show ?thesis
    unfolding grid_size_of_def unat_ucast_size unat_number_of_blocks by simp
qed

subsection \<open>What is queued on the way through the loop\<close>

lemma pass_launch_simps [simp]:
  "is_merge (pass_launch sz g bs block ts)" "grid_dim (pass_launch sz g bs block ts) = g"
  "block_dim (pass_launch sz g bs block ts) = bs" "count (pass_launch sz g bs block ts) = sz"
  "\<not> is_copy (pass_launch sz g bs block ts)" "\<not> is_group_sort (pass_launch sz g bs block ts)"
  by (simp_all add: pass_launch_def is_merge_def is_copy_def is_group_sort_def)

lemma sort_launch_simps [simp]:
  "is_group_sort (sort_launch sz g bs)" "grid_dim (sort_launch sz g bs) = g"
  "block_dim (sort_launch sz g bs) = bs" "count (sort_launch sz g bs) = sz"
  "\<not> is_copy (sort_launch sz g bs)" "\<not> is_merge (sort_launch sz g bs)"
  by (simp_all add: sort_launch_def is_merge_def is_copy_def is_group_sort_def)

lemma copy_launch_simps [simp]:
  "is_copy (copy_launch sz g bs)" "grid_dim (copy_launch sz g bs) = g"
  "block_dim (copy_launch sz g bs) = bs" "count (copy_launch sz g bs) = sz"
  "\<not> is_group_sort (copy_launch sz g bs)" "\<not> is_merge (copy_launch sz g bs)"
  by (simp_all add: copy_launch_def is_merge_def is_copy_def is_group_sort_def)

lemma reach_queue:
  assumes "loop_reach e cmp d sz g bs w0 block ts wk"
  shows "\<exists>q. queue wk = queue w0 @ q \<and> (\<forall>l \<in> set q. is_merge l \<and> grid_dim l = g) \<and>
             ts = odd (length q) \<and>
             (\<forall>k < length q. stage_status e d (queue w0 @ take (Suc k) q) = hipSuccess)"
  using assms
proof (induction rule: loop_reach.induct)
  case start
  show ?case by simp
next
  case (pass block ts wk)
  then obtain q where q: "queue wk = queue w0 @ q" "\<forall>l \<in> set q. is_merge l \<and> grid_dim l = g"
     "ts = odd (length q)" "\<forall>k < length q. stage_status e d (queue w0 @ take (Suc k) q) = hipSuccess"
    by blast
  let ?l = "pass_launch sz g bs block (\<not> ts)"
  have "\<forall>k < length (q @ [?l]). stage_status e d (queue w0 @ take (Suc k) (q @ [?l])) = hipSuccess"
  proof (intro allI impI)
    fix k assume "k < length (q @ [?l])"
    then consider "k < length q" | "k = length q" by force
    then show "stage_status e d (queue w0 @ take (Suc k) (q @ [?l])) = hipSuccess"
    proof cases
      case 1 with q(4) show ?thesis by simp
    next
      case 2 with pass(3) q(1) show ?thesis by simp
    qed
  qed
  with q show ?case
    by (intro exI[of _ "q @ [?l]"]) simp
qed

lemma reach_status:
  assumes "loop_reach e cmp d sz g bs w0 block ts wk" "stage_status e d (queue w0) = hipSuccess"
  shows "stage_status e d (queue wk) = hipSuccess"
  using assms by (induction rule: loop_reach.induct) simp_all

subsection \<open>When a call returns\<close>

lemma sort_impl_unfold:
  "sort_impl e bs (Some ptr) w sz cmp d =
     (case HIP_SYNC_AND_RETURN_ON_ERROR e d ''block_sort_kernel'' sz
             (hipLaunchKernelGGL e cmp (sort_launch sz (grid_size_of bs sz) bs) (entry_world d bs sz ptr w)) of
        Inl r \<Rightarrow> Some r
      | Inr w1 \<Rightarrow>
          (case merge_loop e cmp d sz (grid_size_of bs sz) bs bs False w1 of
             None \<Rightarrow> None
           | Some (Inl r) \<Rightarrow> Some r
           | Some (Inr (ts, w2)) \<Rightarrow>
               (if ts then
                  (case HIP_SYNC_AND_RETURN_ON_ERROR e d ''block_copy_kernel'' sz
                          (hipLaunchKernelGGL e cmp (copy_launch sz (grid_size_of bs sz) bs) w2) of
                     Inl r \<Rightarrow> Some r
                   | Inr w3 \<Rightarrow> Some (hipSuccess, w3))
                else Some (hipSuccess, w2))))"
  unfolding sort_impl_def Let_def grid_size_of_def sort_launch_def copy_launch_def entry_world_def
  by simp

lemma sort_impl_None_iff:
  "sort_impl e bs (Some ptr) w sz cmp d = None \<longleftrightarrow>
     (\<exists>w1. HIP_SYNC_AND_RETURN_ON_ERROR e d ''block_sort_kernel'' sz
             (hipLaunchKernelGGL e cmp (sort_launch sz (grid_size_of bs sz) bs) (entry_world d bs sz ptr w)) = Inr w1 \<and>
           merge_loop e cmp d sz (grid_size_of bs sz) bs bs False w1 = None)"
  unfolding sort_impl_unfold
  by (auto split: sum.splits option.splits prod.splits)

lemma queue_entry_world [simp]: "queue (entry_world d bs sz ptr w) = queue w"
  by (simp add: entry_world_def)

lemma merge_pass_queue:
  assumes "merge_pass e cmp d sz g bs block ts w = Inr w1"
  shows "queue w1 = queue w @ [pass_launch sz g bs block ts]"
    and "stage_status e d (queue w @ [pass_launch sz g bs block ts]) = hipSuccess"
proof -
  from merge_pass_Inr[OF assms]
  have a: "silent w1 = hipLaunchKernelGGL e cmp (pass_launch sz g bs block ts) (silent w)"
   and b: "stage_status e d (queue w @ [pass_launch sz g bs block ts]) = hipSuccess" by auto
  from arg_cong[OF a, of queue] show "queue w1 = queue w @ [pass_launch sz g bs block ts]" by simp
  from b show "stage_status e d (queue w @ [pass_launch sz g bs block ts]) = hipSuccess" .
qed

text \<open>A runtime that fails the stage at queue length \<open>K\<close> stops the loop.\<close>

lemma merge_loop_returns_on_failure:
  assumes fail: "\<And>q. length q = K \<Longrightarrow> stage_status e d q \<noteq> hipSuccess"
  shows "length (queue w) < K \<Longrightarrow> merge_loop e cmp d sz g bs block ts w \<noteq> None"
proof (induction "K - length (queue w)" arbitrary: w block ts)
  case 0
  then show ?case by simp
next
  case (Suc n)
  show ?case
  proof (cases "(ucast block :: 64 word) < sz")
    case False
    then show ?thesis by (subst merge_loop.simps) simp
  next
    case True
    show ?thesis
    proof (cases "merge_pass e cmp d sz g bs block (\<not> ts) w")
      case (Inl a)
      with True show ?thesis by (subst merge_loop.simps) simp
    next
      case (Inr w1)
      note q = merge_pass_queue[OF Inr]
      from q(2) fail have "length (queue w @ [pass_launch sz g bs block (\<not> ts)]) \<noteq> K" by blast
      with Suc.prems q(1) have lt: "length (queue w1) < K" by simp
      from Suc.hyps(2) q(1) have "n = K - length (queue w1)" by simp
      from Suc.hyps(1)[OF this lt]
      have "merge_loop e cmp d sz g bs (block * 2) (\<not> ts) w1 \<noteq> None" .
      with True Inr show ?thesis by (subst merge_loop.simps) simp
    qed
  qed
qed

lemma sort_impl_returns_on_failure:
  assumes fail: "\<And>q. length q = length (queue w) + k \<Longrightarrow> stage_status e d q \<noteq> hipSuccess"
      and k: "0 < k"
  shows "sort_impl e bs (Some ptr) w sz cmp d \<noteq> None"
proof
  assume "sort_impl e bs (Some ptr) w sz cmp d = None"
  then obtain w1 where
    s: "HIP_SYNC_AND_RETURN_ON_ERROR e d ''block_sort_kernel'' sz
             (hipLaunchKernelGGL e cmp (sort_launch sz (grid_size_of bs sz) bs) (entry_world d bs sz ptr w)) = Inr w1"
    and l: "merge_loop e cmp d sz (grid_size_of bs sz) bs bs False w1 = None"
    unfolding sort_impl_None_iff by blast
  from sync_Inr[OF s]
  have a: "silent w1 = silent (hipLaunchKernelGGL e cmp (sort_launch sz (grid_size_of bs sz) bs) (entry_world d bs sz ptr w))"
   and b: "stage_status e d (queue w @ [sort_launch sz (grid_size_of bs sz) bs]) = hipSuccess"
    by auto
  from arg_cong[OF a, of queue] have q: "queue w1 = queue w @ [sort_launch sz (grid_size_of bs sz) bs]" by simp
  from b fail have "length (queue w @ [sort_launch sz (grid_size_of bs sz) bs]) \<noteq> length (queue w) + k" by blast
  with k q have "length (queue w1) < length (queue w) + k" by simp
  from merge_loop_returns_on_failure[OF fail this] l show False by blast
qed

text \<open>Without failures, and up to \<open>2 ^ 31\<close> elements, the loop comes to its end.\<close>

lemma no_failure_status [simp]: "no_failure e \<Longrightarrow> stage_status e d q = hipSuccess"
  by (simp add: no_failure_def stage_status_def)

lemma no_failure_sync:
  "no_failure e \<Longrightarrow> \<exists>w1. HIP_SYNC_AND_RETURN_ON_ERROR e d name sz w = Inr w1"
  by (simp add: sync_status)

lemma no_failure_merge_pass:
  "no_failure e \<Longrightarrow> \<exists>w1. merge_pass e cmp d sz g bs block ts w = Inr w1"
  by (simp add: merge_pass_def no_failure_sync)

lemma merge_loop_terminates:
  assumes nf: "no_failure e" and n: "unat sz \<le> 2 ^ 31"
  shows "0 < unat block \<Longrightarrow> \<exists>ts' w'. merge_loop e cmp d sz g bs block ts w = Some (Inr (ts', w'))"
proof (induction "unat sz - unat block" arbitrary: block ts w rule: less_induct)
  case less
  show ?case
  proof (cases "unat block < unat sz")
    case False
    then show ?thesis by (subst merge_loop.simps) (simp add: loop_condition)
  next
    case True
    from no_failure_merge_pass[OF nf] obtain w1 where
      p: "merge_pass e cmp d sz g bs block (\<not> ts) w = Inr w1" by blast
    from True n have "unat block < 2 ^ 31" by simp
    then have dbl: "unat (block * 2) = 2 * unat block" by (rule unat_double)
    with True less.prems have "unat sz - unat (block * 2) < unat sz - unat block" "0 < unat (block * 2)"
      by simp_all
    from less.hyps[OF this]
    obtain ts' w' where "merge_loop e cmp d sz g bs (block * 2) (\<not> ts) w1 = Some (Inr (ts', w'))" by blast
    with True p show ?thesis by (subst merge_loop.simps) (simp add: loop_condition)
  qed
qed

lemma sort_impl_terminates:
  assumes nf: "no_failure e" and n: "unat sz \<le> 2 ^ 31" and bs: "0 < unat bs"
  shows "\<exists>w'. sort_impl e bs (Some ptr) w sz cmp d = Some (hipSuccess, w')"
proof -
  let ?g = "grid_size_of bs sz"
  from no_failure_sync[OF nf] obtain w1 where
    s: "HIP_SYNC_AND_RETURN_ON_ERROR e d ''block_sort_kernel'' sz
             (hipLaunchKernelGGL e cmp (sort_launch sz ?g bs) (entry_world d bs sz ptr w)) = Inr w1"
    by blast
  from merge_loop_terminates[OF nf n bs] obtain ts w2 where
    l: "merge_loop e cmp d sz ?g bs bs False w1 = Some (Inr (ts, w2))" by blast
  from no_failure_sync[OF nf] obtain w3 where
    c: "HIP_SYNC_AND_RETURN_ON_ERROR e d ''block_copy_kernel'' sz
                          (hipLaunchKernelGGL e cmp (copy_launch sz ?g bs) w2) = Inr w3" by blast
  show ?thesis using c by (simp add: sort_impl_unfold s l)
qed

lemma wrapping_double: "wrapping block \<Longrightarrow> wrapping (block * 2)"
proof (unfold wrapping_def, elim disjE exE conjE)
  assume "block = 0" then show "block * 2 = 0 \<or> (\<exists>j\<le>31. block * 2 = 2 ^ j)" by simp
next
  fix j :: nat assume j: "j \<le> 31" "block = 2 ^ j"
  show "block * 2 = 0 \<or> (\<exists>j\<le>31. block * 2 = 2 ^ j)"
  proof (cases "j = 31")
    case True
    with j have "block * 2 = 0" by simp
    then show ?thesis ..
  next
    case False
    with j have "Suc j \<le> 31" "block * 2 = 2 ^ Suc j" by simp_all
    then show ?thesis by blast
  qed
qed

lemma wrapping_below:
  assumes "wrapping block" "2 ^ 31 < unat sz"
  shows "(ucast block :: 64 word) < sz"
proof -
  have "unat block \<le> 2 ^ 31"
    using assms(1) unfolding wrapping_def
  proof (elim disjE exE conjE)
    assume "block = 0" then show ?thesis by simp
  next
    fix j :: nat assume j: "j \<le> 31" "block = 2 ^ j"
    have lt: "(2::nat) ^ j < 2 ^ 32" using j(1) by (intro power_strict_increasing) simp_all
    have "(2 ^ j :: 32 word) = word_of_nat (2 ^ j)" by simp
    then have "unat block = (2 ^ j) mod 2 ^ LENGTH(32)" unfolding j(2) by (simp only: unat_of_nat)
    also have "\<dots> = 2 ^ j" using lt by simp
    also have "\<dots> \<le> (2::nat) ^ 31" using j(1) by (intro power_increasing) simp_all
    finally show ?thesis .
  qed
  with assms(2) show ?thesis by (simp add: loop_condition)
qed

lemma merge_loop_no_end:
  fixes w :: "('k, 'v) world"
  assumes run: "merge_loop e cmp d sz g bs block ts w = Some r"
      and big: "2 ^ 31 < unat sz" and wr: "wrapping block"
  shows "\<exists>x. r = Inl x"
proof -
  let ?P = "\<lambda>(e' :: ('k, 'v) env) (cmp' :: 'k \<Rightarrow> 'k \<Rightarrow> bool) (d' :: bool) sz' (g' :: 32 word) (bs' :: 32 word)
              block (ts :: bool) (w :: ('k, 'v) world)
              (r :: (hipError_t \<times> ('k, 'v) world) + (bool \<times> ('k, 'v) world)).
        sz' = sz \<longrightarrow> wrapping block \<longrightarrow> (\<exists>x. r = Inl x)"
  have "?P e cmp d sz g bs block ts w r"
  proof (rule merge_loop.raw_induct[where P = ?P, OF _ run], goal_cases)
    case (1 loop e' cmp' d' sz' g' bs' block ts w r)
    show ?case
    proof (intro impI)
      assume eq: "sz' = sz" and wr: "wrapping block"
      from wrapping_below[OF wr big] eq have c: "(ucast block :: 64 word) < sz'" by simp
      show "\<exists>x. r = Inl x"
      proof (cases "merge_pass e' cmp' d' sz' g' bs' block (\<not> ts) w")
        case (Inl a)
        with c 1(2) show ?thesis by auto
      next
        case (Inr w1)
        with c 1(2) have "loop e' cmp' d' sz' g' bs' (block * 2) (\<not> ts) w1 = Some r" by simp
        from 1(1)[OF this] eq wrapping_double[OF wr] show ?thesis by simp
      qed
    qed
  qed
  with wr show ?thesis by simp
qed

lemma merge_loop_diverges:
  assumes nf: "no_failure e" and big: "2 ^ 31 < unat sz" and wr: "wrapping block"
  shows "merge_loop e cmp d sz g bs block ts w = None"
proof (rule ccontr)
  assume "merge_loop e cmp d sz g bs block ts w \<noteq> None"
  then obtain r where r: "merge_loop e cmp d sz g bs block ts w = Some r" by blast
  from merge_loop_no_end[OF r big wr] obtain st w' where x: "r = Inl (st, w')" by force
  have "\<exists>block ts w. True \<and> ucast block < sz \<and> merge_pass e cmp d sz g bs block (\<not> ts) w = Inl (st, w')"
    by (rule merge_loop_Inl_rule[OF r[unfolded x], where I = "\<lambda>block ts w. True"]) simp_all
  with no_failure_merge_pass[OF nf] show False by (metis sum.distinct(1))
qed

lemma wrapping_256: "wrapping 256"
  unfolding wrapping_def by (intro disjI2 exI[of _ 8]) simp

lemma sort_impl_diverges:
  assumes nf: "no_failure e" and big: "2 ^ 31 < unat sz"
  shows "sort_impl e 256 (Some ptr) w sz cmp d = None"
proof -
  from no_failure_sync[OF nf] obtain w1 where
    s: "HIP_SYNC_AND_RETURN_ON_ERROR e d ''block_sort_kernel'' sz
             (hipLaunchKernelGGL e cmp (sort_launch sz (grid_size_of 256 sz) 256) (entry_world d 256 sz ptr w)) = Inr w1"
    by blast
  from merge_loop_diverges[OF nf big wrapping_256] s show ?thesis
    unfolding sort_impl_None_iff by blast
qed

subsection \<open>The shape of the queue of a returned call\<close>

lemma reach_prefixes:
  assumes r: "loop_reach e cmp d sz g bs w0 block ts wk"
      and s0: "stage_status e d (queue w0) = hipSuccess"
  shows "\<exists>q. queue wk = queue w0 @ q \<and> (\<forall>l \<in> set q. is_merge l \<and> grid_dim l = g) \<and>
             ts = odd (length q) \<and>
             (\<forall>k \<le> length q. stage_status e d (queue w0 @ take k q) = hipSuccess)"
proof -
  from reach_queue[OF r] obtain q where q: "queue wk = queue w0 @ q"
     "\<forall>l \<in> set q. is_merge l \<and> grid_dim l = g" "ts = odd (length q)"
     "\<forall>k < length q. stage_status e d (queue w0 @ take (Suc k) q) = hipSuccess" by blast
  have "stage_status e d (queue w0 @ take k q) = hipSuccess" if "k \<le> length q" for k
  proof (cases k)
    case 0 with s0 show ?thesis by simp
  next
    case (Suc k') with that q(4) show ?thesis by simp
  qed
  with q show ?thesis by blast
qed

lemma sort_impl_queue:
  assumes run: "sort_impl e bs (Some ptr) w sz cmp d = Some (st, w')"
  shows "\<exists>m c. queue w' = queue w @ sort_launch sz (grid_size_of bs sz) bs # m @ c \<and>
           (\<forall>l \<in> set m. is_merge l \<and> grid_dim l = grid_size_of bs sz) \<and>
           (c = [] \<or> c = [copy_launch sz (grid_size_of bs sz) bs]) \<and>
           (c \<noteq> [] \<longrightarrow> odd (length m)) \<and>
           (st = hipSuccess \<longrightarrow> odd (length m) \<longrightarrow> c \<noteq> []) \<and>
           st = stage_status e d (queue w') \<and>
           (\<forall>k < length (m @ c).
              stage_status e d (queue w @ sort_launch sz (grid_size_of bs sz) bs # take k (m @ c)) = hipSuccess)"
proof -
  define g where "g = grid_size_of bs sz"
  define w0 where "w0 = hipLaunchKernelGGL e cmp (sort_launch sz g bs) ((silent w)\<lparr>scratch_seq := ptr\<rparr>)"
  have q0: "queue w0 = queue w @ [sort_launch sz g bs]"
    by (simp add: w0_def silent_def)
  from sort_impl_outcome[OF run] have out: "outcome e cmp d sz g bs w0 st (silent w')"
    by (simp only: w0_def g_def)
  let ?shape = "\<lambda>m c. queue (silent w') = queue w @ sort_launch sz g bs # m @ c \<and>
           (\<forall>l \<in> set m. is_merge l \<and> grid_dim l = g) \<and>
           (c = [] \<or> c = [copy_launch sz g bs]) \<and>
           (c \<noteq> [] \<longrightarrow> odd (length m)) \<and>
           (st = hipSuccess \<longrightarrow> odd (length m) \<longrightarrow> c \<noteq> []) \<and>
           st = stage_status e d (queue (silent w')) \<and>
           (\<forall>k < length (m @ c).
              stage_status e d (queue w @ sort_launch sz g bs # take k (m @ c)) = hipSuccess)"
  from out consider
      (sort_failed) "st = stage_status e d (queue w0)" "st \<noteq> hipSuccess" "silent w' = w0"
    | (merge_failed) block ts wk where "stage_status e d (queue w0) = hipSuccess"
        "loop_reach e cmp d sz g bs w0 block ts wk"
        "silent w' = hipLaunchKernelGGL e cmp (pass_launch sz g bs block (\<not> ts)) wk"
        "st = stage_status e d (queue (silent w'))" "st \<noteq> hipSuccess"
    | (done_in_output) block ts wk where "stage_status e d (queue w0) = hipSuccess"
        "loop_reach e cmp d sz g bs w0 block ts wk" "\<not> ts" "silent w' = wk" "st = hipSuccess"
    | (copied_back) block ts wk where "stage_status e d (queue w0) = hipSuccess"
        "loop_reach e cmp d sz g bs w0 block ts wk" "ts"
        "silent w' = hipLaunchKernelGGL e cmp (copy_launch sz g bs) wk"
        "st = stage_status e d (queue (silent w'))"
    unfolding outcome_def by blast
  then have "\<exists>m c. ?shape m c"
  proof cases
    case sort_failed
    then have "?shape [] []" using q0 by simp
    then show ?thesis by blast
  next
    case merge_failed
    from reach_prefixes[OF merge_failed(2,1)] obtain q where q: "queue wk = queue w0 @ q"
       "\<forall>l \<in> set q. is_merge l \<and> grid_dim l = g" "ts = odd (length q)"
       "\<forall>k \<le> length q. stage_status e d (queue w0 @ take k q) = hipSuccess" by blast
    let ?m = "q @ [pass_launch sz g bs block (\<not> ts)]"
    have "queue (silent w') = queue w @ sort_launch sz g bs # ?m @ []"
      using merge_failed(3) q(1) q0 by simp
    moreover have "\<forall>l \<in> set ?m. is_merge l \<and> grid_dim l = g" using q(2) by simp
    moreover have "\<forall>k < length (?m @ []). stage_status e d (queue w @ sort_launch sz g bs # take k (?m @ [])) = hipSuccess"
      using q(4) q0 by simp
    ultimately have "?shape ?m []" using merge_failed(4,5) by simp
    then show ?thesis by blast
  next
    case done_in_output
    from reach_prefixes[OF done_in_output(2,1)] obtain q where q: "queue wk = queue w0 @ q"
       "\<forall>l \<in> set q. is_merge l \<and> grid_dim l = g" "ts = odd (length q)"
       "\<forall>k \<le> length q. stage_status e d (queue w0 @ take k q) = hipSuccess" by blast
    have "queue (silent w') = queue w @ sort_launch sz g bs # q @ []"
      using done_in_output(4) q(1) q0 by simp
    moreover have "st = stage_status e d (queue (silent w'))"
      using reach_status[OF done_in_output(2,1)] done_in_output(4,5) by simp
    moreover have "\<forall>k < length (q @ []). stage_status e d (queue w @ sort_launch sz g bs # take k (q @ [])) = hipSuccess"
      using q(4) q0 by simp
    ultimately have "?shape q []" using q(2,3) done_in_output(3) by simp
    then show ?thesis by blast
  next
    case copied_back
    from reach_prefixes[OF copied_back(2,1)] obtain q where q: "queue wk = queue w0 @ q"
       "\<forall>l \<in> set q. is_merge l \<and> grid_dim l = g" "ts = odd (length q)"
       "\<forall>k \<le> length q. stage_status e d (queue w0 @ take k q) = hipSuccess" by blast
    let ?c = "[copy_launch sz g bs]"
    have "queue (silent w') = queue w @ sort_launch sz g bs # q @ ?c"
      using copied_back(4) q(1) q0 by simp
    moreover have "\<forall>k < length (q @ ?c). stage_status e d (queue w @ sort_launch sz g bs # take k (q @ ?c)) = hipSuccess"
      using q(4) q0 by simp
    ultimately have "?shape q ?c" using q(2,3) copied_back(3,5) by simp
    then show ?thesis by blast
  qed
  then show ?thesis by (simp only: queue_silent g_def)
qed

section \<open>The data: what the kernels do to the buffers\<close>

subsection \<open>Orderings\<close>

lemma swo_asym: "strict_weak_ordering cmp \<Longrightarrow> cmp a b \<Longrightarrow> \<not> cmp b a"
  unfolding strict_weak_ordering_def by blast

lemma swo_negtrans:
  assumes swo: "strict_weak_ordering cmp" and ab: "\<not> cmp b a" and bc: "\<not> cmp c b"
  shows "\<not> cmp c a"
proof
  assume ca: "cmp c a"
  from swo have irr: "\<And>x. \<not> cmp x x"
    and tr: "\<And>x y z. cmp x y \<Longrightarrow> cmp y z \<Longrightarrow> cmp x z"
    and inc: "\<And>x y z. \<not> cmp x y \<Longrightarrow> \<not> cmp y x \<Longrightarrow> \<not> cmp y z \<Longrightarrow> \<not> cmp z y \<Longrightarrow> \<not> cmp x z \<and> \<not> cmp z x"
    unfolding strict_weak_ordering_def by blast+
  have nab: "\<not> cmp a b" using tr[OF ca] bc by blast
  have nbc: "\<not> cmp b c" using tr[of b c a] ca ab by blast
  from inc[OF nab ab nbc bc] ca show False by blast
qed

lemma sorted_by_Nil [simp]: "sorted_by cmp []"
  by (simp add: sorted_by_def)

lemma sorted_by_single [simp]: "sorted_by cmp [x]"
  by (simp add: sorted_by_def)

lemma sorted_by_Cons:
  "sorted_by cmp (x # xs) \<longleftrightarrow> (\<forall>y \<in> set xs. \<not> cmp (fst y) (fst x)) \<and> sorted_by cmp xs"
  by (simp add: sorted_by_def)

lemma sorted_by_take: "sorted_by cmp xs \<Longrightarrow> sorted_by cmp (take k xs)"
  unfolding sorted_by_def by (rule sorted_wrt_take)

lemma sorted_by_drop: "sorted_by cmp xs \<Longrightarrow> sorted_by cmp (drop k xs)"
  unfolding sorted_by_def by (rule sorted_wrt_drop)

subsection \<open>The merge of two runs\<close>

lemma mset_merge2: "mset (merge2 cmp xs ys) = mset xs + mset ys"
  by (induction cmp xs ys rule: merge2.induct) simp_all

lemma set_merge2: "set (merge2 cmp xs ys) = set xs \<union> set ys"
  using arg_cong[OF mset_merge2, of set_mset cmp xs ys] by simp

lemma length_merge2: "length (merge2 cmp xs ys) = length xs + length ys"
  using arg_cong[OF mset_merge2, of size cmp xs ys] by simp

lemma sorted_merge2:
  "strict_weak_ordering cmp \<Longrightarrow> sorted_by cmp xs \<Longrightarrow> sorted_by cmp ys \<Longrightarrow>
   sorted_by cmp (merge2 cmp xs ys)"
proof (induction cmp xs ys rule: merge2.induct)
  case (1 cmp ys)
  then show ?case by simp
next
  case (2 cmp v va)
  then show ?case by simp
next
  case (3 cmp x xs y ys)
  note swo = 3(3)
  note 3 = 3(1,2,4,5)
  show ?case
  proof (cases "cmp (fst y) (fst x)")
    case True
    from 3(3,4) have sx: "sorted_by cmp xs" and sy: "sorted_by cmp ys"
      and xs: "\<forall>z \<in> set xs. \<not> cmp (fst z) (fst x)" and ys: "\<forall>z \<in> set ys. \<not> cmp (fst z) (fst y)"
      by (simp_all add: sorted_by_Cons)
    from 3(1)[OF True swo 3(3) sy] have rec: "sorted_by cmp (merge2 cmp (x # xs) ys)" .
    have nxy: "\<not> cmp (fst x) (fst y)" using swo_asym[OF swo True] .
    have "\<not> cmp (fst z) (fst y)" if "z \<in> set (x # xs) \<union> set ys" for z
    proof -
      from that consider "z = x" | "z \<in> set xs" | "z \<in> set ys" by auto
      then show ?thesis
      proof cases
        case 1 with nxy show ?thesis by simp
      next
        case 2 with xs have "\<not> cmp (fst z) (fst x)" by blast
        from swo_negtrans[OF swo nxy this] show ?thesis .
      next
        case 3 with ys show ?thesis by blast
      qed
    qed
    with rec True show ?thesis by (simp add: sorted_by_Cons set_merge2)
  next
    case False
    from 3(3,4) have sx: "sorted_by cmp xs" and sy: "sorted_by cmp ys"
      and xs: "\<forall>z \<in> set xs. \<not> cmp (fst z) (fst x)" and ys: "\<forall>z \<in> set ys. \<not> cmp (fst z) (fst y)"
      by (simp_all add: sorted_by_Cons)
    from 3(2)[OF False swo sx 3(4)] have rec: "sorted_by cmp (merge2 cmp xs (y # ys))" .
    have "\<not> cmp (fst z) (fst x)" if "z \<in> set xs \<union> set (y # ys)" for z
    proof -
      from that consider "z = y" | "z \<in> set xs" | "z \<in> set ys" by auto
      then show ?thesis
      proof cases
        case 1 with False show ?thesis by simp
      next
        case 2 with xs show ?thesis by blast
      next
        case 3 with ys have "\<not> cmp (fst z) (fst y)" by blast
        from swo_negtrans[OF swo False this] show ?thesis .
      qed
    qed
    with rec False show ?thesis by (simp add: sorted_by_Cons set_merge2)
  qed
qed

lemma merge2_sorted_append:
  "sorted_by cmp (xs @ ys) \<Longrightarrow> merge2 cmp xs ys = xs @ ys"
proof (induction cmp xs ys rule: merge2.induct)
  case (1 cmp ys)
  then show ?case by simp
next
  case (2 cmp v va)
  then show ?case by simp
next
  case (3 cmp x xs y ys)
  from 3(3) have nyx: "\<not> cmp (fst y) (fst x)" and rest: "sorted_by cmp (xs @ y # ys)"
    by (simp_all add: sorted_by_Cons)
  from 3(2)[OF nyx rest] nyx show ?case by simp
qed

subsection \<open>A merge pass\<close>

lemma merge_runs_Nil [simp]: "merge_runs cmp w [] = []"
  by (subst merge_runs.simps) simp

lemma merge_runs_zero [simp]: "merge_runs cmp 0 xs = xs"
  by (subst merge_runs.simps) simp

lemma merge_runs_step:
  "0 < w \<Longrightarrow> xs \<noteq> [] \<Longrightarrow>
   merge_runs cmp w xs = merge2 cmp (take w xs) (take w (drop w xs)) @ merge_runs cmp w (drop (2 * w) xs)"
  by (subst merge_runs.simps) simp

lemma take_take_drop: "take w xs @ take w (drop w xs) = take (2 * w) xs"
proof -
  have "take (w + w) xs = take w xs @ take w (drop w xs)" by (rule take_add)
  then show ?thesis by (simp add: mult_2)
qed

lemma mset_merge_runs: "mset (merge_runs cmp w xs) = mset xs"
proof (induction cmp w xs rule: merge_runs.induct)
  case (1 cmp w xs)
  show ?case
  proof (cases "w = 0 \<or> xs = []")
    case True
    then show ?thesis by auto
  next
    case False
    then have w: "0 < w" and xs: "xs \<noteq> []" by simp_all
    have "mset (merge_runs cmp w xs) = mset (take w xs) + mset (take w (drop w xs)) + mset (drop (2 * w) xs)"
      using 1[OF False] by (simp add: merge_runs_step[OF w xs] mset_merge2)
    also have "\<dots> = mset (take (2 * w) xs @ drop (2 * w) xs)"
      unfolding take_take_drop[symmetric] by simp
    finally show ?thesis by simp
  qed
qed

lemma length_merge_runs: "length (merge_runs cmp w xs) = length xs"
  using arg_cong[OF mset_merge_runs, of size cmp w xs] by simp

lemma merge_runs_sorted:
  "sorted_by cmp xs \<Longrightarrow> merge_runs cmp w xs = xs"
proof (induction cmp w xs rule: merge_runs.induct)
  case (1 cmp w xs)
  show ?case
  proof (cases "w = 0 \<or> xs = []")
    case True
    then show ?thesis by auto
  next
    case False
    then have w: "0 < w" and xs: "xs \<noteq> []" by simp_all
    have "sorted_by cmp (take w xs @ take w (drop w xs))"
      unfolding take_take_drop using 1(2) by (rule sorted_by_take)
    then have "merge2 cmp (take w xs) (take w (drop w xs)) = take (2 * w) xs"
      by (simp add: merge2_sorted_append take_take_drop)
    moreover have "merge_runs cmp w (drop (2 * w) xs) = drop (2 * w) xs"
      using 1(1)[OF False sorted_by_drop[OF 1(2)]] .
    ultimately show ?thesis by (simp add: merge_runs_step[OF w xs])
  qed
qed

subsection \<open>Sorted runs\<close>

lemma runs_sorted_Nil [simp]: "runs_sorted cmp w []"
  by (subst runs_sorted.simps) simp

lemma runs_sorted_zero [simp]: "runs_sorted cmp 0 xs"
  by (subst runs_sorted.simps) simp

lemma runs_sorted_step:
  "0 < w \<Longrightarrow> xs \<noteq> [] \<Longrightarrow>
   runs_sorted cmp w xs \<longleftrightarrow> sorted_by cmp (take w xs) \<and> runs_sorted cmp w (drop w xs)"
  by (subst runs_sorted.simps) simp

lemma runs_sorted_whole:
  assumes "runs_sorted cmp w xs" "0 < w" "length xs \<le> w"
  shows "sorted_by cmp xs"
proof (cases "xs = []")
  case True
  then show ?thesis by simp
next
  case False
  with assms show ?thesis by (simp add: runs_sorted_step)
qed

lemma runs_sorted_short:
  assumes "sorted_by cmp xs" "length xs \<le> w"
  shows "runs_sorted cmp w xs"
proof (cases "w = 0 \<or> xs = []")
  case True
  then show ?thesis by (auto simp: runs_sorted.simps)
next
  case False
  with assms show ?thesis by (simp add: runs_sorted_step)
qed

lemma runs_sorted_prepend:
  assumes "sorted_by cmp ys" "length ys = w" "runs_sorted cmp w zs"
  shows "runs_sorted cmp w (ys @ zs)"
proof (cases "w = 0")
  case True
  then show ?thesis by simp
next
  case False
  with assms have "ys @ zs \<noteq> []" by auto
  with False assms show ?thesis by (simp add: runs_sorted_step)
qed

lemma runs_sorted_merge_runs:
  "strict_weak_ordering cmp \<Longrightarrow> runs_sorted cmp w xs \<Longrightarrow>
   runs_sorted cmp (2 * w) (merge_runs cmp w xs)"
proof (induction cmp w xs rule: merge_runs.induct)
  case (1 cmp w xs)
  note swo = 1(2)
  note 1 = 1(1,3)
  show ?case
  proof (cases "w = 0 \<or> xs = []")
    case True
    then show ?thesis by auto
  next
    case False
    then have w: "0 < w" and xs: "xs \<noteq> []" by simp_all
    let ?M = "merge2 cmp (take w xs) (take w (drop w xs))"
    let ?R = "merge_runs cmp w (drop (2 * w) xs)"
    from 1(2) have s1: "sorted_by cmp (take w xs)" and r1: "runs_sorted cmp w (drop w xs)"
      by (simp_all add: runs_sorted_step[OF w xs])
    have s2: "sorted_by cmp (take w (drop w xs))" and r2: "runs_sorted cmp w (drop (2 * w) xs)"
    proof -
      show "sorted_by cmp (take w (drop w xs))"
      proof (cases "drop w xs = []")
        case True then show ?thesis by simp
      next
        case False with r1 show ?thesis by (simp add: runs_sorted_step[OF w])
      qed
      show "runs_sorted cmp w (drop (2 * w) xs)"
      proof (cases "drop w xs = []")
        case True then show ?thesis by (simp add: mult_2)
      next
        case False with r1 show ?thesis by (simp add: runs_sorted_step[OF w] mult_2 add.commute)
      qed
    qed
    have sM: "sorted_by cmp ?M" using sorted_merge2[OF swo s1 s2] .
    have lM: "length ?M = min (2 * w) (length xs)" by (simp add: length_merge2)
    have rR: "runs_sorted cmp (2 * w) ?R" using 1(1)[OF False swo r2] .
    show ?thesis
    proof (cases "2 * w \<le> length xs")
      case True
      with lM have "length ?M = 2 * w" by simp
      from runs_sorted_prepend[OF sM this rR] show ?thesis
        by (simp add: merge_runs_step[OF w xs])
    next
      case False
      then have "drop (2 * w) xs = []" by simp
      then have "merge_runs cmp w xs = ?M" by (simp add: merge_runs_step[OF w xs])
      moreover from False lM have "length ?M \<le> 2 * w" by simp
      ultimately show ?thesis using runs_sorted_short[OF sM] by simp
    qed
  qed
qed

subsection \<open>The group sort\<close>

lemma sort_groups_Nil [simp]: "sort_groups gs cmp b g [] = []"
  by (cases g) simp_all

lemma mset_sort_groups:
  assumes ok: "group_sort_ok cmp gs" and b: "0 < b"
  shows "length xs \<le> g * b \<Longrightarrow> mset (sort_groups gs cmp b g xs) = mset xs"
proof (induction g arbitrary: xs)
  case 0
  then show ?case by simp
next
  case (Suc g)
  show ?case
  proof (cases "xs = []")
    case True
    then show ?thesis by simp
  next
    case False
    from Suc.prems have "length (drop b xs) \<le> g * b" by simp
    from Suc.IH[OF this] ok have
      "mset (sort_groups gs cmp b (Suc g) xs) = mset (take b xs) + mset (drop b xs)"
      using False by (simp add: group_sort_ok_def)
    also have "\<dots> = mset (take b xs @ drop b xs)" by (simp only: mset_append)
    finally show ?thesis by simp
  qed
qed

lemma length_sort_groups:
  assumes ok: "group_sort_ok cmp gs" and b: "0 < b" and le: "length xs \<le> g * b"
  shows "length (sort_groups gs cmp b g xs) = length xs"
  using arg_cong[OF mset_sort_groups[OF ok b le], of size] by simp

lemma length_group_sort: "group_sort_ok cmp gs \<Longrightarrow> length (gs cmp xs) = length xs"
proof -
  assume "group_sort_ok cmp gs"
  then have "mset (gs cmp xs) = mset xs" by (simp add: group_sort_ok_def)
  from arg_cong[OF this, of size] show ?thesis by simp
qed

lemma runs_sorted_sort_groups:
  assumes ok: "group_sort_ok cmp gs" and b: "0 < b"
  shows "length xs \<le> g * b \<Longrightarrow> runs_sorted cmp b (sort_groups gs cmp b g xs)"
proof (induction g arbitrary: xs)
  case 0
  then show ?case by simp
next
  case (Suc g)
  show ?case
  proof (cases "xs = []")
    case True
    then show ?thesis by simp
  next
    case False
    from ok have s: "sorted_by cmp (gs cmp (take b xs))" by (simp add: group_sort_ok_def)
    have l: "length (gs cmp (take b xs)) = min (length xs) b" by (simp add: length_group_sort[OF ok])
    from Suc.prems have "length (drop b xs) \<le> g * b" by simp
    from Suc.IH[OF this] have r: "runs_sorted cmp b (sort_groups gs cmp b g (drop b xs))" .
    show ?thesis
    proof (cases "b \<le> length xs")
      case True
      with l have "length (gs cmp (take b xs)) = b" by simp
      from runs_sorted_prepend[OF s this r] False show ?thesis by simp
    next
      case False
      then have "drop b xs = []" by simp
      with \<open>xs \<noteq> []\<close> have "sort_groups gs cmp b (Suc g) xs = gs cmp (take b xs)" by simp
      moreover from False l have "length (gs cmp (take b xs)) \<le> b" by simp
      ultimately show ?thesis using runs_sorted_short[OF s] by simp
    qed
  qed
qed

lemma sort_groups_sorted:
  assumes idem: "\<And>ys. sorted_by cmp ys \<Longrightarrow> gs cmp ys = ys"
  shows "sorted_by cmp xs \<Longrightarrow> length xs \<le> g * b \<Longrightarrow> sort_groups gs cmp b g xs = xs"
proof (induction g arbitrary: xs)
  case 0
  then show ?case by simp
next
  case (Suc g)
  show ?case
  proof (cases "xs = []")
    case True
    then show ?thesis by simp
  next
    case False
    from Suc.prems(2) have "length (drop b xs) \<le> g * b" by simp
    from Suc.IH[OF sorted_by_drop[OF Suc.prems(1)] this] idem[OF sorted_by_take[OF Suc.prems(1)]] False
    show ?thesis by simp
  qed
qed

subsection \<open>Writing to a buffer\<close>

lemma take_overwrite: "length out = n \<Longrightarrow> take n (overwrite out dst) = out"
  by (simp add: overwrite_def)

lemma drop_overwrite: "length out = n \<Longrightarrow> drop n (overwrite out dst) = drop n dst"
  by (simp add: overwrite_def)

lemma length_overwrite: "length out \<le> length dst \<Longrightarrow> length (overwrite out dst) = length dst"
  by (simp add: overwrite_def)

lemma overwrite_Nil [simp]: "overwrite [] dst = dst"
  by (simp add: overwrite_def)

lemma launch_sort_fields:
  "input_seq (hipLaunchKernelGGL e cmp (sort_launch sz g bs) w) = input_seq w"
  "scratch_seq (hipLaunchKernelGGL e cmp (sort_launch sz g bs) w) = scratch_seq w"
  "storage_size (hipLaunchKernelGGL e cmp (sort_launch sz g bs) w) = storage_size w"
  "output_seq (hipLaunchKernelGGL e cmp (sort_launch sz g bs) w) =
     overwrite (sort_groups (group_sort e) cmp (unat bs) (unat g) (take (unat sz) (input_seq w))) (output_seq w)"
  by (simp_all add: hipLaunchKernelGGL_def sort_launch_def block_sort_kernel_impl_def)

lemma launch_copy_fields:
  "input_seq (hipLaunchKernelGGL e cmp (copy_launch sz g bs) w) = input_seq w"
  "scratch_seq (hipLaunchKernelGGL e cmp (copy_launch sz g bs) w) = scratch_seq w"
  "storage_size (hipLaunchKernelGGL e cmp (copy_launch sz g bs) w) = storage_size w"
  "output_seq (hipLaunchKernelGGL e cmp (copy_launch sz g bs) w) =
     overwrite (take (unat g * unat bs) (take (unat sz) (scratch_seq w))) (output_seq w)"
  by (simp_all add: hipLaunchKernelGGL_def copy_launch_def block_copy_kernel_impl_def)

lemma launch_pass_fields:
  "input_seq (hipLaunchKernelGGL e cmp (pass_launch sz g bs block ts) w) = input_seq w"
  "storage_size (hipLaunchKernelGGL e cmp (pass_launch sz g bs block ts) w) = storage_size w"
  "ts \<Longrightarrow> output_seq (hipLaunchKernelGGL e cmp (pass_launch sz g bs block ts) w) = output_seq w"
  "ts \<Longrightarrow> scratch_seq (hipLaunchKernelGGL e cmp (pass_launch sz g bs block ts) w) =
     overwrite (take (unat g * unat bs) (merge_runs cmp (unat block) (take (unat sz) (output_seq w))))
       (scratch_seq w)"
  "\<not> ts \<Longrightarrow> scratch_seq (hipLaunchKernelGGL e cmp (pass_launch sz g bs block ts) w) = scratch_seq w"
  "\<not> ts \<Longrightarrow> output_seq (hipLaunchKernelGGL e cmp (pass_launch sz g bs block ts) w) =
     overwrite (take (unat g * unat bs) (merge_runs cmp (unat block) (take (unat sz) (scratch_seq w))))
       (output_seq w)"
  by (simp_all add: hipLaunchKernelGGL_def pass_launch_def block_merge_kernel_impl_def)

lemma pass_active:
  assumes n: "length (output_seq w) \<ge> unat sz" "length (scratch_seq w) \<ge> unat sz"
      and g: "unat sz \<le> unat g * unat bs"
      and w1_def: "w1 = hipLaunchKernelGGL e cmp (pass_launch sz g bs block (\<not> ts)) w"
  shows "take (unat sz) (active (\<not> ts) w1) = merge_runs cmp (unat block) (take (unat sz) (active ts w))"
    and "length (output_seq w1) \<ge> unat sz" and "length (scratch_seq w1) \<ge> unat sz"
    and "input_seq w1 = input_seq w"
    and "drop (unat sz) (output_seq w1) = drop (unat sz) (output_seq w)"
proof -
  let ?n = "unat sz"
  let ?m = "merge_runs cmp (unat block) (take ?n (active ts w))"
  from n have len: "length (take ?n (active ts w)) = ?n" by (simp add: active_def)
  then have lm: "length ?m = ?n" by (simp add: length_merge_runs)
  with g have tk: "take (unat g * unat bs) ?m = ?m" by simp
  show "take ?n (active (\<not> ts) w1) = ?m"
    using lm tk by (cases ts) (simp_all add: w1_def active_def launch_pass_fields take_overwrite)
  show "length (output_seq w1) \<ge> ?n" "length (scratch_seq w1) \<ge> ?n"
    using lm tk n by (cases ts; simp add: w1_def active_def launch_pass_fields length_overwrite)+
  show "input_seq w1 = input_seq w" by (simp add: w1_def launch_pass_fields)
  show "drop ?n (output_seq w1) = drop ?n (output_seq w)"
    using lm tk by (cases ts) (simp_all add: w1_def active_def launch_pass_fields drop_overwrite)
qed

subsection \<open>The data along the loop\<close>

lemma grid_covers:
  assumes "unat sz \<le> 2 ^ 31"
  shows "unat sz \<le> unat (grid_size_of 256 sz) * 256"
proof -
  from assms have "(unat sz + 255) div 256 < 2 ^ 32" by simp
  then have "unat (grid_size_of 256 sz) = (unat sz + 255) div 256"
    by (simp add: unat_grid_size_of)
  then show ?thesis by simp
qed

lemma reach_wrapping:
  "loop_reach e cmp d sz g 256 w0 block ts wk \<Longrightarrow> wrapping block"
  by (induction rule: loop_reach.induct) (simp_all add: wrapping_256 wrapping_double)

lemma reach_exit_bound:
  assumes "loop_reach e cmp d sz g 256 w0 block ts wk" "\<not> (ucast block :: 64 word) < sz"
  shows "unat sz \<le> 2 ^ 31"
proof (rule ccontr)
  assume "\<not> unat sz \<le> 2 ^ 31"
  then have "2 ^ 31 < unat sz" by simp
  from wrapping_below[OF reach_wrapping[OF assms(1)] this] assms(2) show False by simp
qed

lemma reach_data:
  assumes r: "loop_reach e cmp d sz g bs w0 block ts wk"
      and n31: "unat sz \<le> 2 ^ 31" and bs: "0 < unat bs"
      and g: "unat sz \<le> unat g * unat bs"
      and l0: "unat sz \<le> length (output_seq w0)" "unat sz \<le> length (scratch_seq w0)"
      and Q0: "Q (unat bs) (take (unat sz) (output_seq w0))"
      and pres: "\<And>k xs. 0 < k \<Longrightarrow> length xs = unat sz \<Longrightarrow> Q k xs \<Longrightarrow> Q (2 * k) (merge_runs cmp k xs)"
  shows "Q (unat block) (take (unat sz) (active ts wk)) \<and> 0 < unat block \<and>
         unat sz \<le> length (output_seq wk) \<and> unat sz \<le> length (scratch_seq wk) \<and>
         input_seq wk = input_seq w0 \<and>
         drop (unat sz) (output_seq wk) = drop (unat sz) (output_seq w0)"
  using r
proof (induction rule: loop_reach.induct)
  case start
  from Q0 bs l0 show ?case by (simp add: active_def)
next
  case (pass block ts wk)
  let ?n = "unat sz"
  let ?w1 = "hipLaunchKernelGGL e cmp (pass_launch sz g bs block (\<not> ts)) wk"
  from pass.IH have Q: "Q (unat block) (take ?n (active ts wk))" and pos: "0 < unat block"
    and lo: "?n \<le> length (output_seq wk)" and ls: "?n \<le> length (scratch_seq wk)"
    and inp: "input_seq wk = input_seq w0"
    and rest: "drop ?n (output_seq wk) = drop ?n (output_seq w0)" by simp_all
  from pass.hyps(2) have lt: "unat block < ?n" by (simp add: loop_condition)
  with n31 have "unat block < 2 ^ 31" by simp
  then have dbl: "unat (block * 2) = 2 * unat block" by (rule unat_double)
  note pa = pass_active[OF lo ls g refl, where e = e and cmp = cmp and block = block and ts = ts]
  have len: "length (take ?n (active ts wk)) = ?n" using lo ls by (simp add: active_def)
  from pres[OF pos len Q] have "Q (unat (block * 2)) (take ?n (active (\<not> ts) ?w1))"
    unfolding dbl pa(1) .
  with pa(2-5) pos dbl inp rest show ?case by simp
qed

text \<open>
  What a successful call leaves in the output: whatever holds of the data after the
  group sort at width 256 and is kept by every merge pass, holds of the first \<open>sz\<close>
  output elements at a width of at least \<open>sz\<close>; the rest of the output and the input
  are as before.
\<close>

lemma sort_pairs_data:
  assumes run: "sort_pairs e (Some ptr) w sz cmp d = Some (hipSuccess, w')"
      and li: "unat sz \<le> length (input_seq w)" and lo: "unat sz \<le> length (output_seq w)"
      and lp: "unat sz \<le> length ptr"
      and lsg: "length (sort_groups (group_sort e) cmp 256 (unat (grid_size_of 256 sz))
                  (take (unat sz) (input_seq w))) = unat sz"
      and Q0: "Q 256 (sort_groups (group_sort e) cmp 256 (unat (grid_size_of 256 sz))
                  (take (unat sz) (input_seq w)))"
      and pres: "\<And>k xs. 0 < k \<Longrightarrow> length xs = unat sz \<Longrightarrow> Q k xs \<Longrightarrow> Q (2 * k) (merge_runs cmp k xs)"
  shows "\<exists>k. 0 < k \<and> unat sz \<le> k \<and> Q k (take (unat sz) (output_seq w')) \<and>
             drop (unat sz) (output_seq w') = drop (unat sz) (output_seq w) \<and>
             input_seq w' = input_seq w \<and> length (output_seq w') = length (output_seq w)"
proof -
  let ?n = "unat sz"
  define g where "g = grid_size_of 256 sz"
  define sg where "sg = sort_groups (group_sort e) cmp 256 (unat g) (take ?n (input_seq w))"
  define w0 where "w0 = hipLaunchKernelGGL e cmp (sort_launch sz g 256) ((silent w)\<lparr>scratch_seq := ptr\<rparr>)"
  have o0: "output_seq w0 = overwrite sg (output_seq w)" and s0: "scratch_seq w0 = ptr"
    and i0: "input_seq w0 = input_seq w"
    by (simp_all add: w0_def sg_def launch_sort_fields silent_def)
  from lsg have lsg': "length sg = ?n" by (simp add: sg_def g_def)
  from Q0 have Q0': "Q 256 sg" by (simp add: sg_def g_def)
  have t0: "take ?n (output_seq w0) = sg" and d0: "drop ?n (output_seq w0) = drop ?n (output_seq w)"
    and l0: "length (output_seq w0) = length (output_seq w)"
    using lsg' lo by (simp_all add: o0 take_overwrite drop_overwrite length_overwrite)
  from sort_impl_outcome[OF run[unfolded sort_pairs_def]]
  have out: "outcome e cmp d sz g 256 w0 hipSuccess (silent w')"
    by (simp only: w0_def g_def)
  then obtain block ts wk where reach: "loop_reach e cmp d sz g 256 w0 block ts wk"
    and exit: "\<not> (ucast block :: 64 word) < sz"
    and fin: "(\<not> ts \<and> silent w' = wk) \<or> (ts \<and> silent w' = hipLaunchKernelGGL e cmp (copy_launch sz g 256) wk)"
    unfolding outcome_def by auto
  from reach_exit_bound[OF reach exit] have n31: "?n \<le> 2 ^ 31" .
  from grid_covers[OF n31] have cov: "?n \<le> unat g * unat (256 :: 32 word)" by (simp add: g_def)
  have "Q (unat block) (take ?n (active ts wk)) \<and> 0 < unat block \<and>
         ?n \<le> length (output_seq wk) \<and> ?n \<le> length (scratch_seq wk) \<and>
         input_seq wk = input_seq w0 \<and> drop ?n (output_seq wk) = drop ?n (output_seq w0)"
  proof (rule reach_data[where Q = Q, OF reach n31 _ cov])
    show "\<And>k xs. 0 < k \<Longrightarrow> length xs = ?n \<Longrightarrow> Q k xs \<Longrightarrow> Q (2 * k) (merge_runs cmp k xs)"
      by (rule pres)
    show "0 < unat (256 :: 32 word)" by simp
    show "?n \<le> length (output_seq w0)" using l0 lo by simp
    show "?n \<le> length (scratch_seq w0)" using s0 lp by simp
    show "Q (unat (256 :: 32 word)) (take ?n (output_seq w0))" using Q0' t0 by simp
  qed
  then have Q: "Q (unat block) (take ?n (active ts wk))" and pos: "0 < unat block"
    and lok: "?n \<le> length (output_seq wk)" and lsk: "?n \<le> length (scratch_seq wk)"
    and ik: "input_seq wk = input_seq w0"
    and dk: "drop ?n (output_seq wk) = drop ?n (output_seq w0)" by simp_all
  from exit have big: "?n \<le> unat block" by (simp add: loop_condition)
  have lk: "length (output_seq wk) = length (output_seq w0)"
  proof -
    have "length (output_seq wk) = ?n + length (drop ?n (output_seq wk))" using lok by simp
    also have "\<dots> = ?n + length (drop ?n (output_seq w0))" by (simp only: dk)
    also have "\<dots> = length (output_seq w0)" using l0 lo by simp
    finally show ?thesis .
  qed
  have res: "take ?n (output_seq (silent w')) = take ?n (active ts wk) \<and>
        drop ?n (output_seq (silent w')) = drop ?n (output_seq wk) \<and>
        input_seq (silent w') = input_seq wk \<and>
        length (output_seq (silent w')) = length (output_seq wk)"
  proof (cases ts)
    case False
    with fin show ?thesis by (simp add: active_def)
  next
    case True
    with fin have w': "silent w' = hipLaunchKernelGGL e cmp (copy_launch sz g 256) wk" by simp
    have "length (take (unat g * unat (256 :: 32 word)) (take ?n (scratch_seq wk))) = ?n"
      using cov lsk by simp
    with True lok show ?thesis
      unfolding w' launch_copy_fields active_def
      using cov by (simp add: take_overwrite drop_overwrite length_overwrite)
  qed
  have "output_seq (silent w') = output_seq w'" "input_seq (silent w') = input_seq w'"
    by (simp_all add: silent_def)
  with res Q pos big ik i0 dk d0 lk l0 show ?thesis
    by (intro exI[of _ "unat block"]) simp
qed

subsection \<open>The two concrete group sorts\<close>

lemma mset_insert_before: "mset (insert_before cmp x ys) = add_mset x (mset ys)"
  by (induction ys) simp_all

lemma set_insert_before: "set (insert_before cmp x ys) = insert x (set ys)"
  using arg_cong[OF mset_insert_before, of set_mset cmp x ys] by simp

lemma sorted_insert_before:
  assumes swo: "strict_weak_ordering cmp"
  shows "sorted_by cmp ys \<Longrightarrow> sorted_by cmp (insert_before cmp x ys)"
proof (induction ys)
  case Nil
  then show ?case by simp
next
  case (Cons y ys)
  from Cons.prems have ys: "\<forall>z \<in> set ys. \<not> cmp (fst z) (fst y)" and s: "sorted_by cmp ys"
    by (simp_all add: sorted_by_Cons)
  show ?case
  proof (cases "cmp (fst y) (fst x)")
    case True
    from swo_asym[OF swo True] ys Cons.IH[OF s] True show ?thesis
      by (simp add: sorted_by_Cons set_insert_before)
  next
    case False
    have "\<not> cmp (fst z) (fst x)" if "z \<in> set ys" for z
      using swo_negtrans[OF swo False] ys that by blast
    with False Cons.prems show ?thesis by (simp add: sorted_by_Cons)
  qed
qed

lemma insertion_sort_Cons:
  "insertion_sort cmp (x # xs) = insert_before cmp x (insertion_sort cmp xs)"
  by (simp add: insertion_sort_def)

lemma insertion_sort_Nil [simp]: "insertion_sort cmp [] = []"
  by (simp add: insertion_sort_def)

lemma mset_insertion_sort: "mset (insertion_sort cmp xs) = mset xs"
  by (induction xs) (simp_all add: insertion_sort_Cons mset_insert_before)

lemma sorted_insertion_sort:
  "strict_weak_ordering cmp \<Longrightarrow> sorted_by cmp (insertion_sort cmp xs)"
  by (induction xs) (simp_all add: insertion_sort_Cons sorted_insert_before)

lemma insertion_sort_ok: "strict_weak_ordering cmp \<Longrightarrow> group_sort_ok cmp insertion_sort"
  by (simp add: group_sort_ok_def mset_insertion_sort sorted_insertion_sort)

lemma reversing_sort_ok: "strict_weak_ordering cmp \<Longrightarrow> group_sort_ok cmp reversing_sort"
  by (simp add: group_sort_ok_def reversing_sort_def mset_insertion_sort sorted_insertion_sort)

lemma insertion_sort_sorted: "sorted_by cmp xs \<Longrightarrow> insertion_sort cmp xs = xs"
proof (induction xs)
  case Nil
  then show ?case by simp
next
  case (Cons x xs)
  then have "insertion_sort cmp xs = xs" by (simp add: sorted_by_Cons)
  with Cons.prems show ?case
    by (cases xs) (simp_all add: insertion_sort_Cons sorted_by_Cons)
qed

lemma less_nat_swo: "strict_weak_ordering ((<) :: nat \<Rightarrow> nat \<Rightarrow> bool)"
  by (auto simp: strict_weak_ordering_def)

lemma group_sort_quiet_env [simp]: "group_sort (quiet_env gs vals) = gs"
  by (simp add: quiet_env_def)

subsection \<open>Total correctness up to \<open>2 ^ 31\<close> elements\<close>

lemma sort_pairs_terminates:
  assumes "no_failure e" "unat sz \<le> 2 ^ 31"
  shows "\<exists>w'. sort_pairs e (Some ptr) w sz cmp d = Some (hipSuccess, w')"
  using sort_impl_terminates[OF assms, of 256] by (simp add: sort_pairs_def)

text \<open>
  Up to \<open>2 ^ 31\<close> elements a sort on a runtime without failures returns \<open>hipSuccess\<close>
  with the input, permuted and sorted, in the output.
\<close>

lemma sort_pairs_sorts:
  assumes nf: "no_failure e" and n31: "unat sz \<le> 2 ^ 31"
      and swo: "strict_weak_ordering cmp" and ok: "group_sort_ok cmp (group_sort e)"
      and li: "unat sz \<le> length (input_seq w)" and lo: "unat sz \<le> length (output_seq w)"
      and lp: "unat sz \<le> length ptr"
  shows "\<exists>w'. sort_pairs e (Some ptr) w sz cmp d = Some (hipSuccess, w') \<and>
              mset (take (unat sz) (output_seq w')) = mset (take (unat sz) (input_seq w)) \<and>
              sorted_by cmp (take (unat sz) (output_seq w'))"
proof -
  from sort_pairs_terminates[OF nf n31] obtain w' where
    run: "sort_pairs e (Some ptr) w sz cmp d = Some (hipSuccess, w')" by blast
  let ?n = "unat sz"
  let ?X = "take ?n (input_seq w)"
  let ?Q = "\<lambda>k xs. mset xs = mset ?X \<and> runs_sorted cmp k xs"
  let ?sg = "sort_groups (group_sort e) cmp 256 (unat (grid_size_of 256 sz)) ?X"
  from grid_covers[OF n31] li have cov: "length ?X \<le> unat (grid_size_of 256 sz) * 256" by simp
  have lsg: "length ?sg = ?n" using length_sort_groups[OF ok _ cov] li by simp
  have Q0: "?Q 256 ?sg"
    using mset_sort_groups[OF ok _ cov] runs_sorted_sort_groups[OF ok _ cov] by simp
  have pres: "?Q (2 * k) (merge_runs cmp k xs)" if "0 < k" "length xs = ?n" "?Q k xs" for k xs
    using that runs_sorted_merge_runs[OF swo, of k xs] by (simp add: mset_merge_runs)
  from sort_pairs_data[where Q = ?Q, OF run li lo lp lsg Q0 pres]
  obtain k where k: "0 < k" "?n \<le> k" "mset (take ?n (output_seq w')) = mset ?X"
    "runs_sorted cmp k (take ?n (output_seq w'))" by blast
  have "length (take ?n (output_seq w')) \<le> k" using k(2) by simp
  from runs_sorted_whole[OF k(4) k(1) this] k(3) run show ?thesis by blast
qed

subsection \<open>Single steps of the loop\<close>

lemma merge_loop_exit:
  "\<not> (ucast block :: 64 word) < sz \<Longrightarrow>
   merge_loop e cmp d sz g bs block ts w = Some (Inr (ts, w))"
  by (subst merge_loop.simps) simp

lemma merge_loop_step:
  "(ucast block :: 64 word) < sz \<Longrightarrow> merge_pass e cmp d sz g bs block (\<not> ts) w = Inr w1 \<Longrightarrow>
   merge_loop e cmp d sz g bs block ts w = merge_loop e cmp d sz g bs (block * 2) (\<not> ts) w1"
  by (subst merge_loop.simps) simp

lemma silent_eq_fields:
  assumes "silent w1 = w2"
  shows "queue w1 = queue w2" "input_seq w1 = input_seq w2" "output_seq w1 = output_seq w2"
        "scratch_seq w1 = scratch_seq w2" "storage_size w1 = storage_size w2"
  using assms by (auto simp: silent_def)

lemma silent_entry_world [simp]:
  "silent (entry_world d bs sz ptr w) = (silent w)\<lparr>scratch_seq := ptr\<rparr>"
  by (simp add: entry_world_def silent_def)

text \<open>The group sort stage alone, when its status is success and the loop takes no pass.\<close>

lemma sort_impl_no_pass:
  assumes ok: "stage_status e d (queue w @ [sort_launch sz (grid_size_of bs sz) bs]) = hipSuccess"
      and small: "\<not> (ucast bs :: 64 word) < sz"
  shows "\<exists>w'. sort_impl e bs (Some ptr) w sz cmp d = Some (hipSuccess, w') \<and>
              silent w' = hipLaunchKernelGGL e cmp (sort_launch sz (grid_size_of bs sz) bs)
                            ((silent w)\<lparr>scratch_seq := ptr\<rparr>)"
proof -
  let ?g = "grid_size_of bs sz"
  from ok obtain w1 where
    s: "HIP_SYNC_AND_RETURN_ON_ERROR e d ''block_sort_kernel'' sz
          (hipLaunchKernelGGL e cmp (sort_launch sz ?g bs) (entry_world d bs sz ptr w)) = Inr w1"
    using sync_status[of e d "''block_sort_kernel''" sz
            "hipLaunchKernelGGL e cmp (sort_launch sz ?g bs) (entry_world d bs sz ptr w)"]
    by auto
  from sync_Inr[OF s] have "silent w1 = hipLaunchKernelGGL e cmp (sort_launch sz ?g bs) ((silent w)\<lparr>scratch_seq := ptr\<rparr>)"
    by (simp add: silent_launch)
  moreover have "sort_impl e bs (Some ptr) w sz cmp d = Some (hipSuccess, w1)"
    by (simp add: sort_impl_unfold s merge_loop_exit[OF small])
  ultimately show ?thesis by blast
qed



text \<open>One merge pass and the copy-back, on a runtime without failures.\<close>

lemma sort_impl_one_pass:
  assumes nf: "no_failure e"
      and first: "(ucast bs :: 64 word) < sz" and second: "\<not> (ucast (bs * 2) :: 64 word) < sz"
  shows "\<exists>w'. sort_impl e bs (Some ptr) w sz cmp d = Some (hipSuccess, w') \<and>
              queue w' = queue w @ [sort_launch sz (grid_size_of bs sz) bs,
                                    pass_launch sz (grid_size_of bs sz) bs bs True,
                                    copy_launch sz (grid_size_of bs sz) bs]"
proof -
  let ?g = "grid_size_of bs sz"
  from no_failure_sync[OF nf] obtain w1 where
    s: "HIP_SYNC_AND_RETURN_ON_ERROR e d ''block_sort_kernel'' sz
          (hipLaunchKernelGGL e cmp (sort_launch sz ?g bs) (entry_world d bs sz ptr w)) = Inr w1"
    by blast
  from no_failure_merge_pass[OF nf] obtain w2 where
    p: "merge_pass e cmp d sz ?g bs bs (\<not> False) w1 = Inr w2" by blast
  from no_failure_sync[OF nf] obtain w3 where
    c: "HIP_SYNC_AND_RETURN_ON_ERROR e d ''block_copy_kernel'' sz
          (hipLaunchKernelGGL e cmp (copy_launch sz ?g bs) w2) = Inr w3" by blast
  have loop: "merge_loop e cmp d sz ?g bs bs False w1 = Some (Inr (True, w2))"
    using merge_loop_step[OF first p] merge_loop_exit[OF second, of e cmp d ?g bs True w2] by simp
  have res: "sort_impl e bs (Some ptr) w sz cmp d = Some (hipSuccess, w3)"
    by (simp add: sort_impl_unfold s loop c)
  from sync_Inr[OF s] have "queue w1 = queue w @ [sort_launch sz ?g bs]"
    using silent_eq_fields(1)[of w1 "silent (hipLaunchKernelGGL e cmp (sort_launch sz ?g bs) (entry_world d bs sz ptr w))"]
    by simp
  moreover from merge_pass_queue(1)[OF p] have "queue w2 = queue w1 @ [pass_launch sz ?g bs bs True]" by simp
  moreover from sync_Inr[OF c] have "queue w3 = queue w2 @ [copy_launch sz ?g bs]"
    using silent_eq_fields(1)[of w3 "silent (hipLaunchKernelGGL e cmp (copy_launch sz ?g bs) w2)"]
    by simp
  ultimately show ?thesis using res by simp
qed

lemma grid_size_of_values:
  "grid_size_of 256 0 = 0" "grid_size_of 256 1 = 1" "grid_size_of 256 256 = 1" "grid_size_of 256 257 = 2"
  by (simp_all add: grid_size_of_def)

subsection \<open>The diagnostics flag\<close>

lemma merge_loop_debug_sim:
  fixes w1 :: "('k, 'v) world"
  assumes nf: "no_failure e"
      and run: "merge_loop e cmp d1 sz g bs block ts w1 = Some r1"
      and eq: "silent w2 = silent w1"
  shows "\<exists>ts' w1' w2'. r1 = Inr (ts', w1') \<and>
           merge_loop e cmp d2 sz g bs block ts w2 = Some (Inr (ts', w2')) \<and> silent w2' = silent w1'"
proof -
  let ?P = "\<lambda>(e' :: ('k, 'v) env) (cmp' :: 'k \<Rightarrow> 'k \<Rightarrow> bool) (d' :: bool) (sz' :: 64 word) (g' :: 32 word)
              (bs' :: 32 word) (block :: 32 word) (ts :: bool) (w1 :: ('k, 'v) world)
              (r1 :: (hipError_t \<times> ('k, 'v) world) + (bool \<times> ('k, 'v) world)).
        e' = e \<longrightarrow> cmp' = cmp \<longrightarrow> d' = d1 \<longrightarrow> sz' = sz \<longrightarrow> g' = g \<longrightarrow> bs' = bs \<longrightarrow>
        (\<forall>w2. silent w2 = silent w1 \<longrightarrow>
           (\<exists>ts' w1' w2'. r1 = Inr (ts', w1') \<and>
              merge_loop e cmp d2 sz g bs block ts w2 = Some (Inr (ts', w2')) \<and> silent w2' = silent w1'))"
  have "?P e cmp d1 sz g bs block ts w1 r1"
  proof (rule merge_loop.raw_induct[where P = ?P, OF _ run], goal_cases)
    case (1 loop e' cmp' d' sz' g' bs' block ts w1 r1)
    show ?case
    proof (intro impI allI)
      fix w2
      assume eqs: "e' = e" "cmp' = cmp" "d' = d1" "sz' = sz" "g' = g" "bs' = bs"
         and eq: "silent w2 = silent w1"
      show "\<exists>ts' w1' w2'. r1 = Inr (ts', w1') \<and>
              merge_loop e cmp d2 sz g bs block ts w2 = Some (Inr (ts', w2')) \<and> silent w2' = silent w1'"
      proof (cases "(ucast block :: 64 word) < sz")
        case False
        with 1(2) eqs have "r1 = Inr (ts, w1)" by simp
        with merge_loop_exit[OF False, of e cmp d2 g bs ts w2] eq show ?thesis by simp
      next
        case True
        from no_failure_merge_pass[OF nf] obtain w1a where
          p1: "merge_pass e cmp d1 sz g bs block (\<not> ts) w1 = Inr w1a" by blast
        from no_failure_merge_pass[OF nf] obtain w2a where
          p2: "merge_pass e cmp d2 sz g bs block (\<not> ts) w2 = Inr w2a" by blast
        from merge_pass_Inr[OF p1] merge_pass_Inr[OF p2] eq have eqa: "silent w2a = silent w1a" by simp
        from True 1(2) eqs p1 have "loop e cmp d1 sz g bs (block * 2) (\<not> ts) w1a = Some r1" by simp
        from 1(1)[OF this] eqa obtain ts' w1' w2' where
          "r1 = Inr (ts', w1')"
          "merge_loop e cmp d2 sz g bs (block * 2) (\<not> ts) w2a = Some (Inr (ts', w2'))"
          "silent w2' = silent w1'" by blast
        with merge_loop_step[OF True p2] show ?thesis by simp
      qed
    qed
  qed
  with eq show ?thesis by simp
qed

lemma sort_impl_debug_sim:
  assumes nf: "no_failure e"
      and run: "sort_impl e bs (Some ptr) w sz cmp d1 = Some (st, w1')"
  shows "\<exists>w2'. sort_impl e bs (Some ptr) w sz cmp d2 = Some (st, w2') \<and> silent w2' = silent w1'"
proof -
  let ?g = "grid_size_of bs sz"
  let ?sync = "\<lambda>d name w. HIP_SYNC_AND_RETURN_ON_ERROR e d name sz w"
  from no_failure_sync[OF nf] obtain a1 where
    s1: "?sync d1 ''block_sort_kernel'' (hipLaunchKernelGGL e cmp (sort_launch sz ?g bs) (entry_world d1 bs sz ptr w)) = Inr a1"
    by blast
  from no_failure_sync[OF nf] obtain a2 where
    s2: "?sync d2 ''block_sort_kernel'' (hipLaunchKernelGGL e cmp (sort_launch sz ?g bs) (entry_world d2 bs sz ptr w)) = Inr a2"
    by blast
  from sync_Inr[OF s1] sync_Inr[OF s2] have eqa: "silent a2 = silent a1"
    by (simp add: silent_launch)
  from run s1 obtain r1 where l1: "merge_loop e cmp d1 sz ?g bs bs False a1 = Some r1"
    by (cases "merge_loop e cmp d1 sz ?g bs bs False a1") (simp_all add: sort_impl_unfold)
  from merge_loop_debug_sim[OF nf l1 eqa, of d2] obtain ts b1 b2 where
    r1: "r1 = Inr (ts, b1)" and l2: "merge_loop e cmp d2 sz ?g bs bs False a2 = Some (Inr (ts, b2))"
    and eqb: "silent b2 = silent b1" by blast
  show ?thesis
  proof (cases ts)
    case False
    with run s1 l1 r1 have "st = hipSuccess" "w1' = b1" by (simp_all add: sort_impl_unfold)
    moreover from False s2 l2 have "sort_impl e bs (Some ptr) w sz cmp d2 = Some (hipSuccess, b2)"
      by (simp add: sort_impl_unfold)
    ultimately show ?thesis using eqb by simp
  next
    case True
    from no_failure_sync[OF nf] obtain c1 where
      c1: "?sync d1 ''block_copy_kernel'' (hipLaunchKernelGGL e cmp (copy_launch sz ?g bs) b1) = Inr c1" by blast
    from no_failure_sync[OF nf] obtain c2 where
      c2: "?sync d2 ''block_copy_kernel'' (hipLaunchKernelGGL e cmp (copy_launch sz ?g bs) b2) = Inr c2" by blast
    from sync_Inr[OF c1] sync_Inr[OF c2] eqb have eqc: "silent c2 = silent c1"
      by (simp add: silent_launch)
    from True run s1 l1 r1 c1 have "st = hipSuccess" "w1' = c1" by (simp_all add: sort_impl_unfold)
    moreover from True s2 l2 c2 have "sort_impl e bs (Some ptr) w sz cmp d2 = Some (hipSuccess, c2)"
      by (simp add: sort_impl_unfold)
    ultimately show ?thesis using eqc by simp
  qed
qed

subsection \<open>The number of merge passes up to \<open>2 ^ 31\<close> elements\<close>

lemma num_passes_done: "\<not> (0 < w \<and> w < n) \<Longrightarrow> num_passes w n = 0"
  by (subst num_passes.simps) simp

lemma num_passes_step: "0 < w \<Longrightarrow> w < n \<Longrightarrow> num_passes w n = Suc (num_passes (2 * w) n)"
  by (subst num_passes.simps) simp

text \<open>
  \<open>num_passes w n\<close> is the least \<open>k\<close> with \<open>n \<le> w * 2 ^ k\<close>; for \<open>w = 256 < n\<close> that is
  the ceiling of the binary logarithm of \<open>ceil (n / 256)\<close>.
\<close>

lemma num_passes_least:
  "0 < w \<Longrightarrow> n \<le> w * 2 ^ num_passes w n \<and> (\<forall>k < num_passes w n. w * 2 ^ k < n)"
proof (induction w n rule: num_passes.induct)
  case (1 w n)
  show ?case
  proof (cases "w < n")
    case False
    with 1(2) show ?thesis by (simp add: num_passes_done)
  next
    case True
    with 1 have ih: "n \<le> 2 * w * 2 ^ num_passes (2 * w) n"
      "\<forall>k < num_passes (2 * w) n. 2 * w * 2 ^ k < n" by simp_all
    have "w * 2 ^ k < n" if "k < Suc (num_passes (2 * w) n)" for k
    proof (cases k)
      case 0
      with True show ?thesis by simp
    next
      case (Suc k')
      with that ih(2) have "2 * w * 2 ^ k' < n" by simp
      with Suc show ?thesis by (simp add: mult.assoc mult.left_commute)
    qed
    with ih(1) 1(2) True show ?thesis
      by (simp add: num_passes_step mult.assoc mult.left_commute)
  qed
qed

lemma merge_loop_pass_count:
  assumes nf: "no_failure e" and n: "unat sz \<le> 2 ^ 31"
  shows "0 < unat block \<Longrightarrow>
         \<exists>ts' w' q. merge_loop e cmp d sz g bs block ts w = Some (Inr (ts', w')) \<and>
            queue w' = queue w @ q \<and> length q = num_passes (unat block) (unat sz)"
proof (induction "unat sz - unat block" arbitrary: block ts w rule: less_induct)
  case less
  show ?case
  proof (cases "unat block < unat sz")
    case False
    then have "\<not> (ucast block :: 64 word) < sz" by (simp add: loop_condition)
    from merge_loop_exit[OF this, of e cmp d g bs ts w] False show ?thesis
      by (simp add: num_passes_done)
  next
    case True
    then have c: "(ucast block :: 64 word) < sz" by (simp add: loop_condition)
    from no_failure_merge_pass[OF nf] obtain w1 where
      p: "merge_pass e cmp d sz g bs block (\<not> ts) w = Inr w1" by blast
    from True n have "unat block < 2 ^ 31" by simp
    then have dbl: "unat (block * 2) = 2 * unat block" by (rule unat_double)
    with True less.prems have "unat sz - unat (block * 2) < unat sz - unat block" "0 < unat (block * 2)"
      by simp_all
    from less.hyps[OF this] obtain ts' w' q where
      r: "merge_loop e cmp d sz g bs (block * 2) (\<not> ts) w1 = Some (Inr (ts', w'))"
      and q: "queue w' = queue w1 @ q" "length q = num_passes (unat (block * 2)) (unat sz)" by blast
    let ?q = "pass_launch sz g bs block (\<not> ts) # q"
    from q merge_pass_queue(1)[OF p] have "queue w' = queue w @ ?q" by simp
    moreover from q(2) dbl True less.prems have "length ?q = num_passes (unat block) (unat sz)"
      by (simp add: num_passes_step)
    moreover have "merge_loop e cmp d sz g bs block ts w = Some (Inr (ts', w'))"
      using merge_loop_step[OF c p] r by simp
    ultimately show ?thesis by (intro exI[of _ ts'] exI[of _ w'] exI[of _ ?q]) simp
  qed
qed

subsection \<open>Above \<open>2 ^ 31\<close> elements no call succeeds\<close>

lemma sort_impl_never_succeeds:
  assumes big: "2 ^ 31 < unat sz"
  shows "sort_impl e 256 (Some ptr) w sz cmp d \<noteq> Some (hipSuccess, w')"
proof
  assume run: "sort_impl e 256 (Some ptr) w sz cmp d = Some (hipSuccess, w')"
  from sort_impl_outcome[OF run]
  obtain block ts wk where "loop_reach e cmp d sz (grid_size_of 256 sz) 256
        (hipLaunchKernelGGL e cmp (sort_launch sz (grid_size_of 256 sz) 256) ((silent w)\<lparr>scratch_seq := ptr\<rparr>))
        block ts wk" "\<not> (ucast block :: 64 word) < sz"
    unfolding outcome_def by auto
  from reach_exit_bound[OF this] big show False by simp
qed

subsection \<open>Already sorted input, up to \<open>2 ^ 31\<close> elements\<close>

lemma sorted_by_ascending: "sorted_by (<) (map (\<lambda>i. (i, i)) [0..<n])"
  unfolding sorted_by_def sorted_wrt_map
  by (rule sorted_wrt_mono_rel[OF _ sorted_wrt_upt]) simp

lemma sorted_permutation_of_strict:
  "sorted_wrt (\<lambda>a b. cmp (fst a) (fst b)) xs \<Longrightarrow> sorted_by cmp ys \<Longrightarrow> mset ys = mset xs \<Longrightarrow> ys = xs"
proof (induction xs arbitrary: ys)
  case Nil
  then show ?case by simp
next
  case (Cons x xs)
  from Cons.prems(3) obtain y ys' where ys: "ys = y # ys'" by (cases ys) auto
  have "y = x"
  proof (rule ccontr)
    assume ne: "y \<noteq> x"
    from Cons.prems(3) ys have "x \<in> set ys" "y \<in> set (x # xs)"
      by (metis list.set_intros(1) set_mset_mset)+
    with ne ys have x: "x \<in> set ys'" and y: "y \<in> set xs" by auto
    from Cons.prems(2) ys x have "\<not> cmp (fst x) (fst y)" by (auto simp: sorted_by_def)
    moreover from Cons.prems(1) y have "cmp (fst x) (fst y)" by auto
    ultimately show False by simp
  qed
  with Cons.prems ys have "sorted_wrt (\<lambda>a b. cmp (fst a) (fst b)) xs" "sorted_by cmp ys'" "mset ys' = mset xs"
    by (auto simp: sorted_by_def)
  from Cons.IH[OF this] ys \<open>y = x\<close> show ?case by simp
qed

lemma sorted_linear_unique:
  assumes lin: "\<And>a b. \<not> cmp a b \<Longrightarrow> \<not> cmp b a \<Longrightarrow> a = b"
  shows "sorted_wrt (\<lambda>a b. \<not> cmp b a) ks \<Longrightarrow> sorted_wrt (\<lambda>a b. \<not> cmp b a) ls \<Longrightarrow>
         mset ls = mset ks \<Longrightarrow> ls = ks"
proof (induction ks arbitrary: ls)
  case Nil
  then show ?case by simp
next
  case (Cons k ks)
  from Cons.prems(3) obtain l ls' where ls: "ls = l # ls'" by (cases ls) auto
  have "l = k"
  proof (rule ccontr)
    assume ne: "l \<noteq> k"
    from Cons.prems(3) ls have "k \<in> set ls" "l \<in> set (k # ks)"
      by (metis list.set_intros(1) set_mset_mset)+
    with ne ls have k: "k \<in> set ls'" and l: "l \<in> set ks" by auto
    from Cons.prems(2) ls k have "\<not> cmp k l" by auto
    moreover from Cons.prems(1) l have "\<not> cmp l k" by auto
    ultimately show False using lin ne by blast
  qed
  with Cons.prems ls have "sorted_wrt (\<lambda>a b. \<not> cmp b a) ks" "sorted_wrt (\<lambda>a b. \<not> cmp b a) ls'"
    "mset ls' = mset ks"
    by auto
  from Cons.IH[OF this] ls \<open>l = k\<close> show ?case by simp
qed

lemma sorted_keys_unique:
  assumes lin: "\<And>a b. \<not> cmp a b \<Longrightarrow> \<not> cmp b a \<Longrightarrow> a = b"
      and xs: "sorted_by cmp xs" and ys: "sorted_by cmp ys" and perm: "mset ys = mset xs"
  shows "map fst ys = map fst xs"
proof -
  from xs have a: "sorted_wrt (\<lambda>a b. \<not> cmp b a) (map fst xs)"
    by (simp add: sorted_by_def sorted_wrt_map)
  from ys have b: "sorted_wrt (\<lambda>a b. \<not> cmp b a) (map fst ys)"
    by (simp add: sorted_by_def sorted_wrt_map)
  from perm have c: "mset (map fst ys) = mset (map fst xs)" by (metis mset_map)
  show ?thesis using lin a b c by (rule sorted_linear_unique)
qed

text \<open>
  Up to \<open>2 ^ 31\<close> elements, on a runtime without failures and with buffers of at least
  \<open>sz\<close> elements, an already sorted input comes out as it went in when the group sort
  leaves a sorted chunk as it is; the rest of the output buffer is untouched.
\<close>

lemma sorted_input_stays:
  assumes sorted: "sorted_by cmp (take (unat sz) (input_seq w))"
      and idem: "\<And>ys. sorted_by cmp ys \<Longrightarrow> group_sort e cmp ys = ys"
      and nf: "no_failure e" and n31: "unat sz \<le> 2 ^ 31"
      and li: "unat sz \<le> length (input_seq w)" and lo: "unat sz \<le> length (output_seq w)"
      and lp: "unat sz \<le> length ptr"
  shows "\<exists>w'. sort_pairs e (Some ptr) w sz cmp d = Some (hipSuccess, w') \<and>
              take (unat sz) (output_seq w') = take (unat sz) (input_seq w) \<and>
              drop (unat sz) (output_seq w') = drop (unat sz) (output_seq w)"
proof -
  from sort_pairs_terminates[OF nf n31] obtain w' where
    run: "sort_pairs e (Some ptr) w sz cmp d = Some (hipSuccess, w')" by blast
  let ?n = "unat sz"
  let ?X = "take ?n (input_seq w)"
  let ?Q = "\<lambda>(k :: nat) xs. xs = ?X"
  let ?sg = "sort_groups (group_sort e) cmp 256 (unat (grid_size_of 256 sz)) ?X"
  from grid_covers[OF n31] li have cov: "length ?X \<le> unat (grid_size_of 256 sz) * 256" by simp
  have sg: "?sg = ?X"
    by (rule sort_groups_sorted[where gs = "group_sort e", OF idem sorted cov])
  have lsg: "length ?sg = ?n" unfolding sg using li by simp
  have pres: "?Q (2 * k) (merge_runs cmp k xs)" if "0 < k" "length xs = ?n" "?Q k xs" for k xs
    using that sorted by (simp add: merge_runs_sorted)
  from sort_pairs_data[where Q = ?Q, OF run li lo lp lsg sg pres] run
  show ?thesis by blast
qed

text \<open>
  With any group sort that meets section 4.2: a strictly sorted input (no two keys
  tie) comes out as it went in, and under a predicate that is a linear order on the
  keys the keys of a sorted input come out as they went in. What happens to the values
  of equal keys is left to the group sort.
\<close>

lemma strictly_sorted_input_stays:
  assumes strict: "sorted_wrt (\<lambda>a b. cmp (fst a) (fst b)) (take (unat sz) (input_seq w))"
      and nf: "no_failure e" and n31: "unat sz \<le> 2 ^ 31"
      and swo: "strict_weak_ordering cmp" and ok: "group_sort_ok cmp (group_sort e)"
      and li: "unat sz \<le> length (input_seq w)" and lo: "unat sz \<le> length (output_seq w)"
      and lp: "unat sz \<le> length ptr"
  shows "\<exists>w'. sort_pairs e (Some ptr) w sz cmp d = Some (hipSuccess, w') \<and>
              take (unat sz) (output_seq w') = take (unat sz) (input_seq w)"
proof -
  from sort_pairs_sorts[OF nf n31 swo ok li lo lp, of d] obtain w' where
    run: "sort_pairs e (Some ptr) w sz cmp d = Some (hipSuccess, w')"
    and perm: "mset (take (unat sz) (output_seq w')) = mset (take (unat sz) (input_seq w))"
    and srt: "sorted_by cmp (take (unat sz) (output_seq w'))" by blast
  from sorted_permutation_of_strict[OF strict srt perm] run show ?thesis by blast
qed

lemma sorted_input_keys_stay:
  assumes sorted: "sorted_by cmp (take (unat sz) (input_seq w))"
      and lin: "\<And>a b. \<not> cmp a b \<Longrightarrow> \<not> cmp b a \<Longrightarrow> a = b"
      and nf: "no_failure e" and n31: "unat sz \<le> 2 ^ 31"
      and swo: "strict_weak_ordering cmp" and ok: "group_sort_ok cmp (group_sort e)"
      and li: "unat sz \<le> length (input_seq w)" and lo: "unat sz \<le> length (output_seq w)"
      and lp: "unat sz \<le> length ptr"
  shows "\<exists>w'. sort_pairs e (Some ptr) w sz cmp d = Some (hipSuccess, w') \<and>
              map fst (take (unat sz) (output_seq w')) = map fst (take (unat sz) (input_seq w)) \<and>
              mset (take (unat sz) (output_seq w')) = mset (take (unat sz) (input_seq w))"
proof -
  from sort_pairs_sorts[OF nf n31 swo ok li lo lp, of d] obtain w' where
    run: "sort_pairs e (Some ptr) w sz cmp d = Some (hipSuccess, w')"
    and perm: "mset (take (unat sz) (output_seq w')) = mset (take (unat sz) (input_seq w))"
    and srt: "sorted_by cmp (take (unat sz) (output_seq w'))" by blast
  from sorted_keys_unique[where cmp = cmp, OF lin sorted srt perm] run perm show ?thesis by blast
qed

text \<open>
  The keys-only overload: no values to exchange, so under a linear order a sorted input
  comes out as it went in, with any group sort that meets section 4.2.
\<close>

lemma sorted_keys_only_stay:
  assumes sorted: "sorted_by cmp (take (unat sz) (input_seq w))"
      and lin: "\<And>a b. \<not> cmp a b \<Longrightarrow> \<not> cmp b a \<Longrightarrow> a = b"
      and nf: "no_failure e" and n31: "unat sz \<le> 2 ^ 31"
      and swo: "strict_weak_ordering cmp" and ok: "group_sort_ok cmp (group_sort e)"
      and li: "unat sz \<le> length (input_seq w)" and lo: "unat sz \<le> length (output_seq w)"
      and lp: "unat sz \<le> length ptr"
  shows "\<exists>w'. sort_keys e (Some ptr) w sz cmp d = Some (hipSuccess, w') \<and>
              take (unat sz) (output_seq w') = take (unat sz) (input_seq w)"
proof -
  let ?e = "e\<lparr>with_values := False\<rparr>"
  from nf have nf': "no_failure ?e" by (simp add: no_failure_def)
  from ok have ok': "group_sort_ok cmp (group_sort ?e)" by simp
  from sorted_input_keys_stay[where cmp = cmp, OF sorted lin nf' n31 swo ok' li lo lp, of d]
  obtain w' where run: "sort_pairs ?e (Some ptr) w sz cmp d = Some (hipSuccess, w')"
    and keys: "map fst (take (unat sz) (output_seq w')) = map fst (take (unat sz) (input_seq w))"
    by blast
  have "xs = ys" if "map fst xs = map fst ys" for xs ys :: "('a \<times> unit) list"
    using that by (induction xs arbitrary: ys) auto
  from this[OF keys] run show ?thesis by (simp add: sort_keys_def sort_pairs_def)
qed

section \<open>The claims\<close>

subsection \<open>Concrete runs\<close>

lemma no_failure_quiet_env [simp]: "no_failure (quiet_env gs vals)"
  by (simp add: no_failure_def quiet_env_def)

lemma sort_keys_sort_pairs: "sort_keys e = sort_pairs (e\<lparr>with_values := False\<rparr>)"
  by (intro ext) (simp add: sort_keys_def sort_pairs_def)

lemma queue_late_zero [simp]: "queue late_zero = []"
  by (simp add: late_zero_def)

lemma run_late_zero:
  "sort_pairs (quiet_env insertion_sort True) (Some (replicate 257 (9, 9))) late_zero 257 (<) False =
   Some (hipSuccess,
         late_zero\<lparr>output_seq := (0, 7) # replicate 256 (1, 5),
                    scratch_seq := (0, 7) # replicate 256 (1, 5),
                    queue := [sort_launch 257 2 256, pass_launch 257 2 256 256 True,
                              copy_launch 257 2 256]\<rparr>)"
  by code_simp

lemma run_failing_257:
  "map_option (\<lambda>(st, w). (st, queue w))
     (sort_pairs (failing_env insertion_sort 2 (hipError 7)) (Some (replicate 257 (9, 9)))
        late_zero 257 (<) True) =
   Some (hipError 7, [sort_launch 257 2 256, pass_launch 257 2 256 256 True])"
  by code_simp

text \<open>
  Section 4.2 alone does not settle what a sort does to equal keys: the group sort that
  reverses ties meets it, and with it two sorted pairs with one key come out with their
  values exchanged.
\<close>

lemma ties_rest_on_group_sort:
  "group_sort_ok ((<) :: nat \<Rightarrow> nat \<Rightarrow> bool)
     (reversing_sort :: (nat \<Rightarrow> nat \<Rightarrow> bool) \<Rightarrow> (nat \<times> nat) list \<Rightarrow> (nat \<times> nat) list) \<and>
   sort_pairs (quiet_env reversing_sort True) (Some [(0, 0), (0, 0)]) two_ties 2 (<) False =
     Some (hipSuccess,
           two_ties\<lparr>output_seq := [(1, 20), (1, 10)], scratch_seq := [(0, 0), (0, 0)],
                     queue := [sort_launch 2 1 256]\<rparr>)"
proof -
  have "sort_pairs (quiet_env reversing_sort True) (Some [(0, 0), (0, 0)]) two_ties 2 (<) False =
     Some (hipSuccess,
           two_ties\<lparr>output_seq := [(1, 20), (1, 10)], scratch_seq := [(0, 0), (0, 0)],
                     queue := [sort_launch 2 1 256]\<rparr>)"
    by code_simp
  then show ?thesis using reversing_sort_ok[OF less_nat_swo] by blast
qed

subsection \<open>The claims, one by one\<close>

text \<open>
  C1, at the failing input: a sort of \<open>2 ^ 31 + 1\<close> elements never returns \<open>hipSuccess\<close>,
  whatever the runtime answers and whatever the buffers hold; and on a runtime that
  reports no failure it never returns.
\<close>

theorem sort_never_returns:
  "sort_pairs e (Some ptr) w (2 ^ 31 + 1) cmp d \<noteq> Some (hipSuccess, w') \<and>
   sort_pairs (quiet_env gs vals) (Some ptr) w (2 ^ 31 + 1) cmp d = None"
proof
  have big: "(2::nat) ^ 31 < unat (2 ^ 31 + 1 :: 64 word)" by simp
  show "sort_pairs e (Some ptr) w (2 ^ 31 + 1) cmp d \<noteq> Some (hipSuccess, w')"
    using sort_impl_never_succeeds[OF big] by (simp add: sort_pairs_def)
  show "sort_pairs (quiet_env gs vals) (Some ptr) w (2 ^ 31 + 1) cmp d = None"
    using sort_impl_diverges[OF no_failure_quiet_env big] by (simp add: sort_pairs_def)
qed

text \<open>
  C2: a call with a null scratch pointer sets the storage size to the aligned bytes of
  the keys, plus the aligned bytes of the values when values take part, and to 4 when
  that sum is zero; it returns \<open>hipSuccess\<close> and launches nothing (the world is otherwise
  unchanged). The keys-only overload is the case where \<open>with_values\<close> is false.
\<close>

theorem capacity_query:
  "sort_pairs e None w sz cmp d = Some (hipSuccess, w\<lparr>storage_size := required_storage e sz\<rparr>)"
  by (simp add: sort_pairs_def sort_impl_def required_storage_def Let_def)

theorem capacity_query_witness:
  "sort_pairs (quiet_env insertion_sort True) None three_pairs 3 (<) False =
     Some (hipSuccess, three_pairs\<lparr>storage_size := 512\<rparr>) \<and>
   sort_pairs (quiet_env insertion_sort True) None three_pairs 0 (<) False =
     Some (hipSuccess, three_pairs\<lparr>storage_size := 4\<rparr>)"
  using capacity_query[of "quiet_env insertion_sort True" three_pairs 3 "(<)" False]
        capacity_query[of "quiet_env insertion_sort True" three_pairs 0 "(<)" False]
  by (simp add: required_storage_def quiet_env_def)

text \<open>
  C3, at the failing input: with \<open>2 ^ 31 + 1\<close> elements the merge loop started at width
  256 never comes to its end, whatever the runtime answers; and when the runtime
  reports no failure it never stops at all.
\<close>

theorem merge_loop_runs_forever:
  "merge_loop e cmp d (2 ^ 31 + 1) g 256 256 False w \<noteq> Some (Inr x) \<and>
   merge_loop (quiet_env gs vals) cmp d (2 ^ 31 + 1) g 256 256 False w = None"
proof
  have big: "(2::nat) ^ 31 < unat (2 ^ 31 + 1 :: 64 word)" by simp
  show "merge_loop e cmp d (2 ^ 31 + 1) g 256 256 False w \<noteq> Some (Inr x)"
    using merge_loop_no_end[OF _ big wrapping_256, of e cmp d g 256 False w "Inr x"] by auto
  show "merge_loop (quiet_env gs vals) cmp d (2 ^ 31 + 1) g 256 256 False w = None"
    by (rule merge_loop_diverges[OF no_failure_quiet_env big wrapping_256])
qed




text \<open>
  C5: when a call returns \<open>hipSuccess\<close>, the copy-back kernel is among its launches
  exactly when the number of merge passes it launched is odd; and then, for a strict
  weak ordering, a group sort as section 4.2 asks for and buffers of at least \<open>sz\<close>
  elements, the first \<open>sz\<close> elements of the output buffer are the input, permuted and
  sorted.
\<close>

theorem copy_back_iff_odd:
  assumes run: "sort_pairs e (Some ptr) w sz cmp d = Some (hipSuccess, w')"
  shows "(\<exists>q. queue w' = queue w @ q \<and>
              ((\<exists>l \<in> set q. is_copy l) \<longleftrightarrow> odd (length (filter is_merge q)))) \<and>
         (strict_weak_ordering cmp \<and> group_sort_ok cmp (group_sort e) \<and>
          unat sz \<le> length (input_seq w) \<and> unat sz \<le> length (output_seq w) \<and>
          unat sz \<le> length ptr \<longrightarrow>
            mset (take (unat sz) (output_seq w')) = mset (take (unat sz) (input_seq w)) \<and>
            sorted_by cmp (take (unat sz) (output_seq w')))"
proof (intro conjI impI)
  let ?g = "grid_size_of 256 sz"
  from sort_impl_queue[OF run[unfolded sort_pairs_def]]
  obtain m c where q: "queue w' = queue w @ sort_launch sz ?g 256 # m @ c"
    and m: "\<forall>l \<in> set m. is_merge l \<and> grid_dim l = ?g"
    and c: "c = [] \<or> c = [copy_launch sz ?g 256]"
    and co: "c \<noteq> [] \<longrightarrow> odd (length m)" and oc: "odd (length m) \<longrightarrow> c \<noteq> []" by blast
  let ?q = "sort_launch sz ?g 256 # m @ c"
  from m have fm: "filter is_merge m = m" by (simp add: filter_id_conv)
  from m have nm: "\<forall>l \<in> set m. \<not> is_copy l" by (auto simp: is_merge_def is_copy_def split: kernel_name.splits)
  from c fm have "filter is_merge ?q = m" by auto
  moreover from c nm have "(\<exists>l \<in> set ?q. is_copy l) \<longleftrightarrow> c \<noteq> []" by auto
  ultimately have "(\<exists>l \<in> set ?q. is_copy l) \<longleftrightarrow> odd (length (filter is_merge ?q))"
    using co oc by auto
  with q show "\<exists>q. queue w' = queue w @ q \<and>
              ((\<exists>l \<in> set q. is_copy l) \<longleftrightarrow> odd (length (filter is_merge q)))" by blast
next
  assume h: "strict_weak_ordering cmp \<and> group_sort_ok cmp (group_sort e) \<and>
          unat sz \<le> length (input_seq w) \<and> unat sz \<le> length (output_seq w) \<and>
          unat sz \<le> length ptr"
  then have swo: "strict_weak_ordering cmp" and ok: "group_sort_ok cmp (group_sort e)"
    and li: "unat sz \<le> length (input_seq w)" and lo: "unat sz \<le> length (output_seq w)"
    and lp: "unat sz \<le> length ptr" by simp_all
  let ?n = "unat sz"
  let ?X = "take ?n (input_seq w)"
  let ?Q = "\<lambda>k xs. mset xs = mset ?X \<and> runs_sorted cmp k xs"
  let ?sg = "sort_groups (group_sort e) cmp 256 (unat (grid_size_of 256 sz)) ?X"
  obtain block ts wk where "loop_reach e cmp d sz (grid_size_of 256 sz) 256
        (hipLaunchKernelGGL e cmp (sort_launch sz (grid_size_of 256 sz) 256) ((silent w)\<lparr>scratch_seq := ptr\<rparr>))
        block ts wk" "\<not> (ucast block :: 64 word) < sz"
    using sort_impl_outcome[OF run[unfolded sort_pairs_def]] unfolding outcome_def by auto
  from reach_exit_bound[OF this] have "?n \<le> 2 ^ 31" .
  from grid_covers[OF this] li have cov: "length ?X \<le> unat (grid_size_of 256 sz) * 256" by simp
  have lsg: "length ?sg = ?n" using length_sort_groups[OF ok _ cov] li by simp
  have Q0: "?Q 256 ?sg"
    using mset_sort_groups[OF ok _ cov] runs_sorted_sort_groups[OF ok _ cov] by simp
  have pres: "?Q (2 * k) (merge_runs cmp k xs)" if "0 < k" "length xs = ?n" "?Q k xs" for k xs
    using that runs_sorted_merge_runs[OF swo, of k xs] by (simp add: mset_merge_runs)
  from sort_pairs_data[where Q = ?Q, OF run li lo lp lsg Q0 pres]
  obtain k where k: "0 < k" "?n \<le> k" "mset (take ?n (output_seq w')) = mset ?X"
    "runs_sorted cmp k (take ?n (output_seq w'))" by blast
  have "length (take ?n (output_seq w')) \<le> k" using k(2) by simp
  from runs_sorted_whole[OF k(4) k(1) this] k(3)
  show "mset (take ?n (output_seq w')) = mset ?X" "sorted_by cmp (take ?n (output_seq w'))"
    by simp_all
qed

theorem copy_back_iff_odd_witness:
  "sort_pairs (quiet_env insertion_sort True) (Some (replicate 257 (9, 9))) late_zero 257 (<) False =
   Some (hipSuccess,
         late_zero\<lparr>output_seq := (0, 7) # replicate 256 (1, 5),
                    scratch_seq := (0, 7) # replicate 256 (1, 5),
                    queue := [sort_launch 257 2 256, pass_launch 257 2 256 256 True,
                              copy_launch 257 2 256]\<rparr>) \<and>
   is_copy (copy_launch 257 2 256) \<and>
   odd (length (filter is_merge [sort_launch 257 2 256, pass_launch 257 2 256 256 True,
                                 copy_launch 257 2 256])) \<and>
   mset ((0, 7) # replicate 256 (1, 5)) = mset (replicate 256 (1, 5) @ [(0 :: nat, 7 :: nat)]) \<and>
   sorted_by (<) ((0 :: nat, 7 :: nat) # replicate 256 (1, 5))"
proof -
  have len: "unat (257 :: 64 word) \<le> length (input_seq late_zero)"
       "unat (257 :: 64 word) \<le> length (output_seq late_zero)"
       "unat (257 :: 64 word) \<le> length (replicate 257 (9 :: nat, 9 :: nat))"
    by (simp_all add: late_zero_def)
  have ok: "group_sort_ok (<) (insertion_sort :: (nat \<Rightarrow> nat \<Rightarrow> bool) \<Rightarrow> (nat \<times> nat) list \<Rightarrow> (nat \<times> nat) list)"
    by (rule insertion_sort_ok[OF less_nat_swo])
  from copy_back_iff_odd[OF run_late_zero] less_nat_swo ok len
  have "mset (take (unat (257 :: 64 word)) ((0, 7) # replicate 256 (1, 5))) =
          mset (take (unat (257 :: 64 word)) (input_seq late_zero)) \<and>
        sorted_by (<) (take (unat (257 :: 64 word)) ((0 :: nat, 7 :: nat) # replicate 256 (1, 5)))"
    by simp
  then have "mset ((0, 7) # replicate 256 (1, 5)) = mset (replicate 256 (1, 5) @ [(0 :: nat, 7 :: nat)])"
    "sorted_by (<) ((0 :: nat, 7 :: nat) # replicate 256 (1, 5))"
    by (simp_all add: late_zero_def)
  with run_late_zero show ?thesis by simp
qed

text \<open>
  C6: a call that returns has launched at least the group sort; the status it returns
  is the status of the last stage it launched, as the runtime gave it, and every stage
  before that one reported success: so no stage follows a failed one, and
  \<open>hipSuccess\<close> is returned only when no stage failed. And the call does return
  when the runtime fails the stage at some queue length.
\<close>

theorem fail_fast:
  "(\<forall>st w'. sort_pairs e (Some ptr) w sz cmp d = Some (st, w') \<longrightarrow>
      (\<exists>q. queue w' = queue w @ q \<and> q \<noteq> [] \<and> st = stage_status e d (queue w') \<and>
           (\<forall>k. 0 < k \<and> k < length q \<longrightarrow> stage_status e d (queue w @ take k q) = hipSuccess))) \<and>
   ((\<exists>k>0. \<forall>q. length q = length (queue w) + k \<longrightarrow> stage_status e d q \<noteq> hipSuccess) \<longrightarrow>
      sort_pairs e (Some ptr) w sz cmp d \<noteq> None)"
proof (intro conjI allI impI)
  fix st w'
  assume "sort_pairs e (Some ptr) w sz cmp d = Some (st, w')"
  from sort_impl_queue[OF this[unfolded sort_pairs_def]]
  obtain m c where q: "queue w' = queue w @ sort_launch sz (grid_size_of 256 sz) 256 # m @ c"
    and st: "st = stage_status e d (queue w')"
    and pre: "\<forall>k < length (m @ c).
              stage_status e d (queue w @ sort_launch sz (grid_size_of 256 sz) 256 # take k (m @ c)) = hipSuccess"
    by blast
  let ?q = "sort_launch sz (grid_size_of 256 sz) 256 # m @ c"
  have "stage_status e d (queue w @ take k ?q) = hipSuccess" if "0 < k \<and> k < length ?q" for k
  proof -
    from that obtain k' where k: "k = Suc k'" by (cases k) auto
    with that pre show ?thesis by simp
  qed
  with q st
  show "\<exists>q. queue w' = queue w @ q \<and> q \<noteq> [] \<and> st = stage_status e d (queue w') \<and>
           (\<forall>k. 0 < k \<and> k < length q \<longrightarrow> stage_status e d (queue w @ take k q) = hipSuccess)"
    by (intro exI[of _ ?q]) blast
next
  assume "\<exists>k>0. \<forall>q. length q = length (queue w) + k \<longrightarrow> stage_status e d q \<noteq> hipSuccess"
  then obtain k where "0 < k" "\<And>q. length q = length (queue w) + k \<Longrightarrow> stage_status e d q \<noteq> hipSuccess"
    by blast
  from sort_impl_returns_on_failure[OF this(2,1)]
  show "sort_pairs e (Some ptr) w sz cmp d \<noteq> None" by (simp add: sort_pairs_def)
qed

theorem fail_fast_witness:
  "\<exists>w'. sort_pairs (failing_env insertion_sort 2 (hipError 7)) (Some (replicate 257 (9, 9)))
          late_zero 257 (<) True = Some (hipError 7, w') \<and>
        queue w' = [sort_launch 257 2 256, pass_launch 257 2 256 256 True] \<and>
        hipError 7 = stage_status (failing_env insertion_sort 2 (hipError 7) :: (nat, nat) env) True (queue w') \<and>
        stage_status (failing_env insertion_sort 2 (hipError 7) :: (nat, nat) env) True
          [sort_launch 257 2 256] = hipSuccess"
proof -
  let ?e = "failing_env insertion_sort 2 (hipError 7) :: (nat, nat) env"
  let ?run = "sort_pairs ?e (Some (replicate 257 (9, 9))) late_zero 257 (<) True"
  note ff = fail_fast[of ?e "replicate 257 (9, 9)" late_zero 257 "(<)" True]
  have "\<exists>k>0. \<forall>q. length q = length (queue late_zero) + k \<longrightarrow> stage_status ?e True q \<noteq> hipSuccess"
    by (intro exI[of _ 2]) (simp add: failing_env_def stage_status_def)
  with ff have "?run \<noteq> None" by (elim conjE impE) assumption
  then obtain st w' where some: "?run = Some (st, w')" by (cases ?run) auto
  with run_failing_257 have run: "?run = Some (hipError 7, w')"
    and qw: "queue w' = [sort_launch 257 2 256, pass_launch 257 2 256 256 True]" by simp_all
  from ff run obtain q where q: "queue w' = queue late_zero @ q"
       "hipError 7 = stage_status ?e True (queue w')"
       "\<forall>k. 0 < k \<and> k < length q \<longrightarrow> stage_status ?e True (queue late_zero @ take k q) = hipSuccess"
    by blast
  from q(1) qw have "q = [sort_launch 257 2 256, pass_launch 257 2 256 256 True]" by simp
  with q(3) have "stage_status ?e True [sort_launch 257 2 256] = hipSuccess"
    by (auto dest: spec[of _ 1])
  with run qw q(2) show ?thesis by (intro exI[of _ w']) simp
qed

text \<open>
  C7: on a runtime without failures, \<open>sz = 256\<close> queues the group sort and nothing
  else; \<open>sz = 257\<close> queues the group sort, one merge pass (from the output to the
  scratch buffer, at width 256) and the copy-back; and with \<open>sz = 1\<close>, for a group sort
  as section 4.2 asks for and non-empty buffers, the call returns \<open>hipSuccess\<close> with
  the first output element equal to the first input element and the rest of the
  output untouched.
\<close>

theorem boundary_sizes:
  assumes nf: "no_failure e"
  shows "(\<exists>w'. sort_pairs e (Some ptr) w 256 cmp d = Some (hipSuccess, w') \<and>
               queue w' = queue w @ [sort_launch 256 1 256]) \<and>
         (\<exists>w'. sort_pairs e (Some ptr) w 257 cmp d = Some (hipSuccess, w') \<and>
               queue w' = queue w @ [sort_launch 257 2 256, pass_launch 257 2 256 256 True,
                                     copy_launch 257 2 256]) \<and>
         (group_sort_ok cmp (group_sort e) \<and> input_seq w \<noteq> [] \<and> output_seq w \<noteq> [] \<longrightarrow>
            (\<exists>w'. sort_pairs e (Some ptr) w 1 cmp d = Some (hipSuccess, w') \<and>
                  take 1 (output_seq w') = take 1 (input_seq w) \<and>
                  drop 1 (output_seq w') = drop 1 (output_seq w) \<and>
                  queue w' = queue w @ [sort_launch 1 1 256]))"
proof (intro conjI impI)
  have "\<not> (ucast (256 :: 32 word) :: 64 word) < 256" by simp
  from sort_impl_no_pass[OF no_failure_status[OF nf] this, where d = d and w = w and ptr = ptr and cmp = cmp]
  obtain w' where run: "sort_impl e 256 (Some ptr) w 256 cmp d = Some (hipSuccess, w')"
    and w': "silent w' = hipLaunchKernelGGL e cmp (sort_launch 256 1 256) ((silent w)\<lparr>scratch_seq := ptr\<rparr>)"
    by (auto simp: grid_size_of_values)
  from silent_eq_fields(1)[OF w'] have "queue w' = queue w @ [sort_launch 256 1 256]" by simp
  with run show "\<exists>w'. sort_pairs e (Some ptr) w 256 cmp d = Some (hipSuccess, w') \<and>
               queue w' = queue w @ [sort_launch 256 1 256]"
    by (simp add: sort_pairs_def)
next
  have "(ucast (256 :: 32 word) :: 64 word) < 257" "\<not> (ucast (256 * 2 :: 32 word) :: 64 word) < 257"
    by simp_all
  from sort_impl_one_pass[OF nf this, where d = d and w = w and ptr = ptr and cmp = cmp]
  show "\<exists>w'. sort_pairs e (Some ptr) w 257 cmp d = Some (hipSuccess, w') \<and>
               queue w' = queue w @ [sort_launch 257 2 256, pass_launch 257 2 256 256 True,
                                     copy_launch 257 2 256]"
    by (simp add: sort_pairs_def grid_size_of_values)
next
  assume h: "group_sort_ok cmp (group_sort e) \<and> input_seq w \<noteq> [] \<and> output_seq w \<noteq> []"
  then obtain x xs where inp: "input_seq w = x # xs" by (cases "input_seq w") auto
  from h obtain y ys where outp: "output_seq w = y # ys" by (cases "output_seq w") auto
  from h have "mset (group_sort e cmp [x]) = {#x#}" by (simp add: group_sort_ok_def)
  then have one: "group_sort e cmp [x] = [x]" by (simp add: mset_single_iff)
  have "\<not> (ucast (256 :: 32 word) :: 64 word) < 1" by simp
  from sort_impl_no_pass[OF no_failure_status[OF nf] this, where d = d and w = w and ptr = ptr and cmp = cmp]
  obtain w' where run: "sort_impl e 256 (Some ptr) w 1 cmp d = Some (hipSuccess, w')"
    and w': "silent w' = hipLaunchKernelGGL e cmp (sort_launch 1 1 256) ((silent w)\<lparr>scratch_seq := ptr\<rparr>)"
    by (auto simp: grid_size_of_values)
  have "sort_groups (group_sort e) cmp 256 (Suc 0) [x] = [x]" using one by simp
  with silent_eq_fields(1,3)[OF w'] inp outp
  have "output_seq w' = x # ys" "queue w' = queue w @ [sort_launch 1 1 256]"
    by (simp_all add: launch_sort_fields silent_def overwrite_def)
  with run inp outp
  show "\<exists>w'. sort_pairs e (Some ptr) w 1 cmp d = Some (hipSuccess, w') \<and>
                  take 1 (output_seq w') = take 1 (input_seq w) \<and>
                  drop 1 (output_seq w') = drop 1 (output_seq w) \<and>
                  queue w' = queue w @ [sort_launch 1 1 256]"
    by (simp add: sort_pairs_def)
qed

theorem boundary_sizes_witness:
  "(\<exists>w'. sort_pairs (quiet_env insertion_sort True) (Some (replicate 257 (9, 9))) late_zero 256 (<) False =
           Some (hipSuccess, w') \<and> queue w' = [sort_launch 256 1 256]) \<and>
   (\<exists>w'. sort_pairs (quiet_env insertion_sort True) (Some (replicate 257 (9, 9))) late_zero 257 (<) False =
           Some (hipSuccess, w') \<and>
         queue w' = [sort_launch 257 2 256, pass_launch 257 2 256 256 True, copy_launch 257 2 256]) \<and>
   (\<exists>w'. sort_pairs (quiet_env insertion_sort True) (Some (replicate 257 (9, 9))) late_zero 1 (<) False =
           Some (hipSuccess, w') \<and>
         take 1 (output_seq w') = [(1, 5)] \<and> drop 1 (output_seq w') = replicate 256 (9, 9) \<and>
         queue w' = [sort_launch 1 1 256])"
proof -
  have ok: "group_sort_ok (<) (group_sort (quiet_env insertion_sort True :: (nat, nat) env))"
    by (simp add: insertion_sort_ok[OF less_nat_swo])
  have io: "input_seq late_zero \<noteq> []" "output_seq late_zero \<noteq> []"
    "take 1 (input_seq late_zero) = [(1, 5)]" "drop 1 (output_seq late_zero) = replicate 256 (9, 9)"
    by (simp_all add: late_zero_def)
  from boundary_sizes[OF no_failure_quiet_env, where gs1 = insertion_sort and vals1 = True
         and ptr = "replicate 257 (9, 9)" and w = late_zero and cmp = "(<)" and d = False]
       ok io
  show ?thesis by simp
qed

text \<open>
  C8: on a runtime that reports no failure, a call with the diagnostics flag set and the
  same call with it cleared either both never return, or return the same status and
  worlds that agree on everything but what was printed: the same kernels queued with the
  same arguments in the same order, the same buffers, the same storage size.
\<close>

theorem debug_flag_only_prints:
  assumes nf: "no_failure e"
  shows "map_option (\<lambda>(st, w'). (st, silent w')) (sort_pairs e temporary_storage w sz cmp True) =
         map_option (\<lambda>(st, w'). (st, silent w')) (sort_pairs e temporary_storage w sz cmp False)"
proof (cases temporary_storage)
  case None
  then show ?thesis by (simp add: sort_pairs_def sort_impl_def Let_def)
next
  case (Some ptr)
  let ?run = "\<lambda>d. sort_impl e 256 (Some ptr) w sz cmp d"
  show ?thesis
  proof (cases "?run True")
    case None
    have "?run False = None"
    proof (rule ccontr)
      assume "?run False \<noteq> None"
      then obtain st w' where "?run False = Some (st, w')" by (cases "?run False") auto
      from sort_impl_debug_sim[OF nf this, of True] None show False by simp
    qed
    with None Some show ?thesis by (simp add: sort_pairs_def)
  next
    case (Some r)
    obtain st w1' where r: "r = (st, w1')" by (cases r)
    from sort_impl_debug_sim[OF nf Some[unfolded r], of False] obtain w2' where
      "?run False = Some (st, w2')" "silent w2' = silent w1'" by blast
    with Some r \<open>temporary_storage = Some ptr\<close> show ?thesis by (simp add: sort_pairs_def)
  qed
qed

theorem debug_flag_only_prints_witness:
  "map_option (\<lambda>(st, w'). (st, silent w'))
     (sort_pairs (quiet_env insertion_sort True) (Some (replicate 257 (9, 9))) late_zero 257 (<) True) =
   Some (hipSuccess,
         silent (late_zero\<lparr>output_seq := (0, 7) # replicate 256 (1, 5),
                            scratch_seq := (0, 7) # replicate 256 (1, 5),
                            queue := [sort_launch 257 2 256, pass_launch 257 2 256 256 True,
                                      copy_launch 257 2 256]\<rparr>))"
  using debug_flag_only_prints[OF no_failure_quiet_env, where gs1 = insertion_sort and vals1 = True
          and temporary_storage = "Some (replicate 257 (9, 9))" and w = late_zero and sz = 257
          and cmp = "(<)"]
        run_late_zero
  by simp

text \<open>
  C9, at the failing input: \<open>2 ^ 31 + 1\<close> keys in ascending order, each with a value,
  are already sorted, and the sort of them never returns \<open>hipSuccess\<close>, whatever the
  runtime answers; on a runtime that reports no failure it never returns, so nothing
  comes back unchanged.
\<close>

theorem sorted_sort_never_returns:
  "sorted_by (<) (input_seq ascending) \<and> length (input_seq ascending) = 2 ^ 31 + 1 \<and>
   sort_pairs e (Some ptr) ascending (2 ^ 31 + 1) (<) d \<noteq> Some (hipSuccess, w') \<and>
   sort_pairs (quiet_env gs vals) (Some ptr) ascending (2 ^ 31 + 1) (<) d = None"
proof -
  have big: "(2::nat) ^ 31 < unat (2 ^ 31 + 1 :: 64 word)" by simp
  have "sorted_by (<) (input_seq ascending)"
    unfolding ascending_def world.simps by (rule sorted_by_ascending)
  moreover have "length (input_seq ascending) = 2 ^ 31 + 1"
    unfolding ascending_def world.simps by (simp only: length_map length_upt diff_zero)
  moreover have "sort_pairs e (Some ptr) ascending (2 ^ 31 + 1) (<) d \<noteq> Some (hipSuccess, w')"
    using sort_impl_never_succeeds[OF big] by (simp add: sort_pairs_def)
  moreover have "sort_pairs (quiet_env gs vals) (Some ptr) ascending (2 ^ 31 + 1) (<) d = None"
    using sort_impl_diverges[OF no_failure_quiet_env big] by (simp add: sort_pairs_def)
  ultimately show ?thesis by blast
qed

text \<open>
  C10: whenever a call with a scratch buffer returns, every kernel it launched (the
  group sort, each merge pass, the copy-back) has the same grid size, the 64-bit
  \<open>(sz + 256 - 1) / 256\<close> cut to 32 bits, which is \<open>ceil (sz / 256) mod 2 ^ 32\<close>.
\<close>

theorem one_grid_size:
  assumes "sort_pairs e (Some ptr) w sz cmp d = Some (st, w')"
  shows "\<exists>q. queue w' = queue w @ q \<and> q \<noteq> [] \<and>
           (\<forall>l \<in> set q. grid_dim l = grid_size_of 256 sz \<and>
                          unat (grid_dim l) = ((unat sz + 255) div 256) mod 2 ^ 32)"
proof -
  from sort_impl_queue[OF assms[unfolded sort_pairs_def]]
  obtain m c where q: "queue w' = queue w @ sort_launch sz (grid_size_of 256 sz) 256 # m @ c"
    and m: "\<forall>l \<in> set m. is_merge l \<and> grid_dim l = grid_size_of 256 sz"
    and c: "c = [] \<or> c = [copy_launch sz (grid_size_of 256 sz) 256]" by blast
  let ?q = "sort_launch sz (grid_size_of 256 sz) 256 # m @ c"
  from m c have "\<forall>l \<in> set ?q. grid_dim l = grid_size_of 256 sz" by auto
  then have "\<forall>l \<in> set ?q. grid_dim l = grid_size_of 256 sz \<and>
                          unat (grid_dim l) = ((unat sz + 255) div 256) mod 2 ^ 32"
    by (simp add: unat_grid_size_of)
  with q show ?thesis by blast
qed

theorem one_grid_size_witness:
  "sort_pairs (quiet_env insertion_sort True) (Some (replicate 257 (9, 9))) late_zero 257 (<) False =
   Some (hipSuccess,
         late_zero\<lparr>output_seq := (0, 7) # replicate 256 (1, 5),
                    scratch_seq := (0, 7) # replicate 256 (1, 5),
                    queue := [sort_launch 257 2 256, pass_launch 257 2 256 256 True,
                              copy_launch 257 2 256]\<rparr>) \<and>
   list_all (\<lambda>l. grid_dim l = grid_size_of 256 257 \<and> unat (grid_dim l) = (257 + 255) div 256 mod 2 ^ 32)
     [sort_launch 257 2 256, pass_launch 257 2 256 256 True, copy_launch 257 2 256]"
  using one_grid_size[OF run_late_zero] run_late_zero
  by (simp add: list_all_iff)

end
